theory Spec2Isabelle
  imports Complex_Main "HOL-Library.Char_ord" "HOL-Library.List_Lexorder"
    "HOL-Library.Product_Lexorder" "HOL-Library.Sublist"
begin

section \<open>Python values used by tools/auto_copilot_pipeline.py\<close>

text \<open>
  Strings are byte strings (\<open>char list\<close>). The tracker's replies are JSON documents; the
  decoded value is a \<open>json\<close>. Numbers in the replies of the tracker are integers, so the
  decoder's float case is left out. Objects are association lists read with \<open>map_of\<close>.
\<close>

datatype json =
    JNull
  | JBool bool
  | JInt int
  | JStr string
  | JList "json list"
  | JObj "(string \<times> json) list"

text \<open>Python truthiness (\<open>if x:\<close>) of a decoded JSON value.\<close>

fun truthy :: "json \<Rightarrow> bool" where
  "truthy JNull = False"
| "truthy (JBool b) = b"
| "truthy (JInt n) = (n \<noteq> 0)"
| "truthy (JStr s) = (s \<noteq> [])"
| "truthy (JList xs) = (xs \<noteq> [])"
| "truthy (JObj kvs) = (kvs \<noteq> [])"

text \<open>\<open>needle in hay\<close> on strings: contiguous substring.\<close>

fun starts_with :: "string \<Rightarrow> string \<Rightarrow> bool" where
  "starts_with s [] = True"
| "starts_with [] (p # ps) = False"
| "starts_with (c # cs) (p # ps) = (c = p \<and> starts_with cs ps)"

fun str_in :: "string \<Rightarrow> string \<Rightarrow> bool" where
  "str_in needle [] = (needle = [])"
| "str_in needle (c # cs) = (starts_with (c # cs) needle \<or> str_in needle cs)"

text \<open>\<open>str.lower()\<close> on the ASCII letters; every other byte is left as it is.\<close>

definition lower_char :: "char \<Rightarrow> char" where
  "lower_char c =
     (case map_of (zip ''ABCDEFGHIJKLMNOPQRSTUVWXYZ'' ''abcdefghijklmnopqrstuvwxyz'') c of
        Some d \<Rightarrow> d
      | None \<Rightarrow> c)"

definition lower :: "string \<Rightarrow> string" where
  "lower s = map lower_char s"

text \<open>\<open>str.strip()\<close>: the ASCII whitespace bytes are removed at both ends.\<close>

definition is_space :: "char \<Rightarrow> bool" where
  "is_space c \<longleftrightarrow>
     c \<in> set [CHR '' '', CHR 0x09, CHR 0x0A, CHR 0x0B, CHR 0x0C, CHR 0x0D,
               CHR 0x1C, CHR 0x1D, CHR 0x1E, CHR 0x1F]"

definition strip :: "string \<Rightarrow> string" where
  "strip s = rev (dropWhile is_space (rev (dropWhile is_space s)))"

section \<open>Commands, exceptions and the outside world\<close>

text \<open>
  Every call of the tracker goes through \<open>gh\<close>. The argument list handed to
  \<open>subprocess.run\<close> is kept structured: one constructor per command line that the
  client builds, carrying the values that the source formats into it.
  Ticket numbers are Python ints; change-request numbers are whatever JSON value the
  timeline carries under \<open>number\<close>.
\<close>

datatype api_path = IssueTimeline json

datatype gh_cmd =
    IssueCreate string
  | IssueAddAssignee int string
  | IssueRemoveAssignee int string
  | IssueComment json
  | IssueView int
  | IssueListClosed nat
  | IssueListOpenSearch string
  | PrView json
  | PrMerge json
  | PrClose json bool
  | PrReady json
  | Api string api_path "string list"

text \<open>
  Exceptions. The text of a \<open>RuntimeError\<close> is kept as a \<open>msg\<close>: one constructor per
  format string of the source, with the values that the source interpolates.
\<close>

datatype exn =
    RuntimeError msg
  | AttributeError
  | TypeError
  | KeyError
  | ValueError
  | JSONDecodeError
and msg =
    GhTimeout gh_cmd
  | GhFailed string
  | GhFatal string
  | GhNoAttempt nat
  | ParseIssueNumber string
  | ParseIssueData
  | ParsePrData
  | AssignExhausted int nat exn
  | GithubUnavailable
  | CannotAssign int exn
  | IssueTotalTimeout int
  | WaitPrResetLimit int
  | PrClosedResetLimit int
  | MergeFailedResetLimit int exn
  | PrTimeoutResetLimit int

text \<open>What one \<open>subprocess.run(..., check=True, timeout=GH_TIMEOUT)\<close> does.\<close>

datatype proc_result =
    Completed string
  | TimeoutExpired
  | CalledProcessError string

text \<open>
  The four places of \<open>_wait_and_merge\<close> that lead to a reset, and the log lines that
  the properties below speak about (every other log line is left out: none of them
  changes the control flow).
\<close>

datatype trigger = NoPrTimeout | PrClosed | MergeFailed | PrTimeout

datatype log_line =
    IssueClosedInfo int
  | IssueClosedNoPrWarning int
  | DetectedPr json
  | SignalDetected
  | ResetTriggered trigger nat
  | SkipResetClosed int
  | RetryWait int
  | ItemDone string
  | ItemFailed string
  | FailureReport "(string \<times> exn) list"

datatype event =
    Run gh_cmd
  | Sleep int
  | Log log_line

text \<open>
  The outside world is an oracle tape: \<open>procs w k\<close> is the outcome of the \<open>k\<close>-th
  \<open>subprocess.run\<close>, \<open>clock w k\<close> the \<open>k\<close>-th reading of \<open>time.time()\<close>. The trace
  records, in order, every command run, every \<open>time.sleep\<close> and the log lines above.
\<close>

record world =
  procs :: "nat \<Rightarrow> proc_result"
  nprocs :: nat
  clock :: "nat \<Rightarrow> real"
  nclock :: nat
  trace :: "event list"

definition subprocess_run :: "gh_cmd \<Rightarrow> world \<Rightarrow> proc_result \<times> world" where
  "subprocess_run cmd w =
     (procs w (nprocs w), w\<lparr>nprocs := Suc (nprocs w), trace := trace w @ [Run cmd]\<rparr>)"

definition time_time :: "world \<Rightarrow> real \<times> world" where
  "time_time w = (clock w (nclock w), w\<lparr>nclock := Suc (nclock w)\<rparr>)"

definition time_sleep :: "int \<Rightarrow> world \<Rightarrow> world" where
  "time_sleep d w = w\<lparr>trace := trace w @ [Sleep d]\<rparr>"

definition logger :: "log_line \<Rightarrow> world \<Rightarrow> world" where
  "logger l w = w\<lparr>trace := trace w @ [Log l]\<rparr>"

section \<open>Configuration constants\<close>

definition COPILOT_ASSIGNEES :: "string list" where
  "COPILOT_ASSIGNEES =
     [''@copilot'', ''copilot'', ''Copilot'', ''github-copilot'', ''github-copilot[bot]'']"

definition COPILOT_USERNAME :: string where
  "COPILOT_USERNAME = ''copilot''"

definition DEFAULT_MAX_PR_RESETS :: nat where "DEFAULT_MAX_PR_RESETS = 3"
definition PR_TIMEOUT :: int where "PR_TIMEOUT = 10800"
definition PR_WAIT_TIMEOUT :: int where "PR_WAIT_TIMEOUT = 1800"
definition RESET_WAIT_TIME :: int where "RESET_WAIT_TIME = 30"
definition RETRY_SLEEP_SHORT :: int where "RETRY_SLEEP_SHORT = 5"
definition NETWORK_ERROR_BASE_WAIT :: nat where "NETWORK_ERROR_BASE_WAIT = 10"
definition NETWORK_ERROR_MAX_WAIT :: nat where "NETWORK_ERROR_MAX_WAIT = 120"
definition PR_READY_WAIT :: int where "PR_READY_WAIT = 2"
definition MAIN_ERROR_WAIT :: int where "MAIN_ERROR_WAIT = 30"
definition TIMELINE_ACCEPT_HEADER :: string where
  "TIMELINE_ACCEPT_HEADER = ''Accept: application/vnd.github.mockingbird-preview+json''"

section \<open>GitHubClient\<close>

text \<open>
  The client. \<open>json_loads\<close> and \<open>py_int\<close> stand for the library functions \<open>json.loads\<close>
  and \<open>int\<close> (\<open>None\<close>: the call raises \<open>JSONDecodeError\<close>, \<open>ValueError\<close>).
\<close>

record github =
  repo_ref :: string
  json_loads :: "string \<Rightarrow> json option"
  py_int :: "string \<Rightarrow> int option"

subsection \<open>\<open>_run_gh\<close>: bounded retry around one command\<close>

text \<open>The placeholder for an empty \<open>stderr\<close> (the source uses a Chinese phrase).\<close>

definition no_error_info :: string where
  "no_error_info = ''<no stderr>''"

definition NETWORK_ERRORS :: "string list" where
  "NETWORK_ERRORS = [''tls handshake'', ''bad gateway'', ''connection reset'',
     ''connection refused'', ''network'', ''timeout'', ''eof'', ''502'', ''503'', ''504'']"

definition is_network_error :: "string \<Rightarrow> bool" where
  "is_network_error stderr = list_ex (\<lambda>keyword. str_in keyword (lower stderr)) NETWORK_ERRORS"

definition is_fatal_error :: "string \<Rightarrow> bool" where
  "is_fatal_error stderr \<longleftrightarrow>
     str_in ''not found'' (lower stderr) \<or> str_in ''unknown'' (lower stderr)"

definition is_rate_limit :: "string \<Rightarrow> bool" where
  "is_rate_limit stderr \<longleftrightarrow>
     str_in ''rate limit'' (lower stderr) \<or> str_in ''abuse'' (lower stderr)"

text \<open>The wait after a timed-out attempt, and after a failed one (lines 303 and 327-339).\<close>

definition timeout_wait :: "nat \<Rightarrow> nat" where
  "timeout_wait attempt = min (2 ^ attempt * NETWORK_ERROR_BASE_WAIT) NETWORK_ERROR_MAX_WAIT"

definition failure_wait :: "nat \<Rightarrow> string \<Rightarrow> nat" where
  "failure_wait attempt stderr =
     (if is_rate_limit stderr then min (300 * attempt) 1800
      else if is_network_error stderr
        then min (2 ^ attempt * NETWORK_ERROR_BASE_WAIT) NETWORK_ERROR_MAX_WAIT
      else min (2 ^ attempt) 30)"

definition stderr_text :: "string \<Rightarrow> string" where
  "stderr_text err = (if err \<noteq> [] then strip err else no_error_info)"

function run_gh_from :: "gh_cmd \<Rightarrow> nat \<Rightarrow> nat \<Rightarrow> world \<Rightarrow> (exn + string) \<times> world" where
  "run_gh_from cmd retries attempt w =
     (if retries < attempt then (Inl (RuntimeError (GhNoAttempt retries)), w)
      else
        (case subprocess_run cmd w of
           (Completed out, w1) \<Rightarrow> (Inr (strip out), w1)
         | (TimeoutExpired, w1) \<Rightarrow>
             if attempt = retries then (Inl (RuntimeError (GhTimeout cmd)), w1)
             else run_gh_from cmd retries (Suc attempt)
                    (time_sleep (int (timeout_wait attempt)) w1)
         | (CalledProcessError err, w1) \<Rightarrow>
             if attempt = retries then (Inl (RuntimeError (GhFailed (stderr_text err))), w1)
             else if is_fatal_error (stderr_text err)
               then (Inl (RuntimeError (GhFatal (stderr_text err))), w1)
             else run_gh_from cmd retries (Suc attempt)
                    (time_sleep (int (failure_wait attempt (stderr_text err))) w1)))"
  by pat_completeness auto
termination
  by (relation "measure (\<lambda>(cmd, retries, attempt, w). Suc retries - attempt)") auto

declare run_gh_from.simps [simp del]

definition run_gh :: "gh_cmd \<Rightarrow> nat \<Rightarrow> world \<Rightarrow> (exn + string) \<times> world" where
  "run_gh cmd retries w = run_gh_from cmd retries 1 w"

subsection \<open>Reading decoded replies\<close>

text \<open>
  \<open>d.get(k, default)\<close>, \<open>d[k]\<close>, \<open>k in d\<close> and \<open>for x in d\<close> on a decoded value.
  A value of the wrong type raises what Python raises.
\<close>

definition obj_get :: "json \<Rightarrow> string \<Rightarrow> json \<Rightarrow> exn + json" where
  "obj_get d k dflt =
     (case d of
        JObj kvs \<Rightarrow> Inr (case map_of kvs k of Some v \<Rightarrow> v | None \<Rightarrow> dflt)
      | _ \<Rightarrow> Inl AttributeError)"

definition py_index :: "json \<Rightarrow> string \<Rightarrow> exn + json" where
  "py_index d k =
     (case d of
        JObj kvs \<Rightarrow> (case map_of kvs k of Some v \<Rightarrow> Inr v | None \<Rightarrow> Inl KeyError)
      | _ \<Rightarrow> Inl TypeError)"

definition py_contains :: "string \<Rightarrow> json \<Rightarrow> exn + bool" where
  "py_contains k d =
     (case d of
        JObj kvs \<Rightarrow> Inr (map_of kvs k \<noteq> None)
      | JStr s \<Rightarrow> Inr (str_in k s)
      | JList xs \<Rightarrow> Inr (JStr k \<in> set xs)
      | _ \<Rightarrow> Inl TypeError)"

definition py_iter :: "json \<Rightarrow> exn + json list" where
  "py_iter d =
     (case d of
        JList xs \<Rightarrow> Inr xs
      | JObj kvs \<Rightarrow> Inr (map (\<lambda>kv. JStr (fst kv)) kvs)
      | JStr s \<Rightarrow> Inr (map (\<lambda>c. JStr [c]) s)
      | _ \<Rightarrow> Inl TypeError)"

subsection \<open>\<open>api_request\<close>\<close>

definition api_request ::
  "github \<Rightarrow> string \<Rightarrow> api_path \<Rightarrow> string list \<Rightarrow> bool \<Rightarrow> world \<Rightarrow> (exn + json) \<times> world" where
  "api_request gh method path headers silent_fail w =
     (case run_gh (Api method path headers) 3 w of
        (Inr output, w1) \<Rightarrow>
          if output = [] then (Inr (JObj []), w1)
          else (case json_loads gh output of
                  Some j \<Rightarrow> (Inr j, w1)
                | None \<Rightarrow> if silent_fail then (Inr (JObj []), w1) else (Inl JSONDecodeError, w1))
      | (Inl e, w1) \<Rightarrow> if silent_fail then (Inr (JObj []), w1) else (Inl e, w1))"

subsection \<open>Tickets\<close>

definition last_segment :: "string \<Rightarrow> string" where
  "last_segment s = rev (takeWhile (\<lambda>c. c \<noteq> CHR ''/'') (rev s))"

text \<open>\<open>create_issue\<close>. The body is rendered from a template and is not part of the model.\<close>

definition create_issue :: "github \<Rightarrow> string \<Rightarrow> world \<Rightarrow> (exn + int) \<times> world" where
  "create_issue gh title w =
     (case run_gh (IssueCreate title) 3 w of
        (Inl e, w1) \<Rightarrow> (Inl e, w1)
      | (Inr output, w1) \<Rightarrow>
          (case py_int gh (last_segment (strip output)) of
             None \<Rightarrow> (Inl (RuntimeError (ParseIssueNumber output)), w1)
           | Some issue_num \<Rightarrow>
               if issue_num \<le> 0 then (Inl (RuntimeError (ParseIssueNumber output)), w1)
               else (Inr issue_num, w1)))"

text \<open>
  \<open>add_assignees\<close>: the candidate names in order, stopping at the first success; the
  last error is raised when every name failed.
\<close>

fun add_assignees_loop ::
  "int \<Rightarrow> nat \<Rightarrow> string list \<Rightarrow> exn option \<Rightarrow> world \<Rightarrow> (exn + unit) \<times> world" where
  "add_assignees_loop issue_number n [] last_error w =
     (case last_error of
        Some e \<Rightarrow> (Inl (RuntimeError (AssignExhausted issue_number n e)), w)
      | None \<Rightarrow> (Inr (), w))"
| "add_assignees_loop issue_number n (assignee # rest) last_error w =
     (case run_gh (IssueAddAssignee issue_number assignee) 3 w of
        (Inr out, w1) \<Rightarrow> (Inr (), w1)
      | (Inl e, w1) \<Rightarrow> add_assignees_loop issue_number n rest (Some e) w1)"

definition add_assignees :: "github \<Rightarrow> int \<Rightarrow> string list \<Rightarrow> world \<Rightarrow> (exn + unit) \<times> world" where
  "add_assignees gh issue_number assignees w =
     add_assignees_loop issue_number (length assignees) assignees None w"

text \<open>\<open>remove_assignees\<close>: every name is tried, failures are ignored.\<close>

fun remove_assignees :: "github \<Rightarrow> int \<Rightarrow> string list \<Rightarrow> world \<Rightarrow> world" where
  "remove_assignees gh issue_number [] w = w"
| "remove_assignees gh issue_number (assignee # rest) w =
     remove_assignees gh issue_number rest
       (snd (run_gh (IssueRemoveAssignee issue_number assignee) 3 w))"

definition comment_issue :: "github \<Rightarrow> json \<Rightarrow> world \<Rightarrow> (exn + unit) \<times> world" where
  "comment_issue gh issue_number w =
     (case run_gh (IssueComment issue_number) 3 w of
        (Inl e, w1) \<Rightarrow> (Inl e, w1)
      | (Inr out, w1) \<Rightarrow> (Inr (), w1))"

definition get_issue :: "github \<Rightarrow> int \<Rightarrow> world \<Rightarrow> (exn + json) \<times> world" where
  "get_issue gh issue_number w =
     (case run_gh (IssueView issue_number) 3 w of
        (Inl e, w1) \<Rightarrow> (Inl e, w1)
      | (Inr output, w1) \<Rightarrow>
          if output = [] then (Inr (JObj []), w1)
          else (case json_loads gh output of
                  Some j \<Rightarrow> (Inr j, w1)
                | None \<Rightarrow> (Inl (RuntimeError ParseIssueData), w1)))"

subsection \<open>Change-requests\<close>

text \<open>
  \<open>if old in data: data[new] = data.pop(old)\<close>, as \<open>get_pull\<close> does it twice. On an
  object the key is renamed; a list or string that contains the key cannot be assigned
  to; a number, boolean or null has no \<open>in\<close>.
\<close>

definition rename_key :: "string \<Rightarrow> string \<Rightarrow> json \<Rightarrow> exn + json" where
  "rename_key old new data =
     (case data of
        JObj kvs \<Rightarrow>
          (case map_of kvs old of
             Some v \<Rightarrow> Inr (JObj ((new, v) # filter (\<lambda>kv. fst kv \<noteq> old) kvs))
           | None \<Rightarrow> Inr data)
      | JList xs \<Rightarrow> if JStr old \<in> set xs then Inl TypeError else Inr data
      | JStr s \<Rightarrow> if str_in old s then Inl TypeError else Inr data
      | _ \<Rightarrow> Inl TypeError)"

definition get_pull :: "github \<Rightarrow> json \<Rightarrow> world \<Rightarrow> (exn + json) \<times> world" where
  "get_pull gh pr_number w =
     (case run_gh (PrView pr_number) 3 w of
        (Inl e, w1) \<Rightarrow> (Inl e, w1)
      | (Inr output, w1) \<Rightarrow>
          (case (if output = [] then Some (JObj []) else json_loads gh output) of
             None \<Rightarrow> (Inl (RuntimeError ParsePrData), w1)
           | Some data \<Rightarrow>
               (case rename_key ''mergedAt'' ''merged_at'' data of
                  Inl e \<Rightarrow> (Inl e, w1)
                | Inr data1 \<Rightarrow> (rename_key ''isDraft'' ''draft'' data1, w1))))"

definition merge_pull :: "github \<Rightarrow> json \<Rightarrow> world \<Rightarrow> (exn + unit) \<times> world" where
  "merge_pull gh pr_number w =
     (case run_gh (PrMerge pr_number) 3 w of
        (Inl e, w1) \<Rightarrow> (Inl e, w1)
      | (Inr out, w1) \<Rightarrow> (Inr (), w1))"

definition close_pr :: "github \<Rightarrow> json \<Rightarrow> bool \<Rightarrow> world \<Rightarrow> (exn + unit) \<times> world" where
  "close_pr gh pr_number delete_branch w =
     (case run_gh (PrClose pr_number delete_branch) 3 w of
        (Inl e, w1) \<Rightarrow> (Inl e, w1)
      | (Inr out, w1) \<Rightarrow> (Inr (), w1))"

text \<open>\<open>mark_pr_ready\<close> swallows every failure (the two branches only differ in the log).\<close>

definition mark_pr_ready :: "github \<Rightarrow> json \<Rightarrow> world \<Rightarrow> world" where
  "mark_pr_ready gh pr_number w = snd (run_gh (PrReady pr_number) 3 w)"

definition list_closed_issues :: "github \<Rightarrow> nat \<Rightarrow> world \<Rightarrow> (exn + json list) \<times> world" where
  "list_closed_issues gh limit w =
     (case run_gh (IssueListClosed limit) 3 w of
        (Inl e, w1) \<Rightarrow> (Inl e, w1)
      | (Inr output, w1) \<Rightarrow>
          if output = [] then (Inr [], w1)
          else (case json_loads gh output of
                  Some (JList issues) \<Rightarrow> (Inr issues, w1)
                | _ \<Rightarrow> (Inr [], w1)))"

subsection \<open>\<open>find_issue_by_todo\<close>\<close>

definition bracketed :: "string \<Rightarrow> string" where
  "bracketed todo_id = ''['' @ todo_id @ '']''"

text \<open>
  \<open>isinstance(issue_num, int)\<close> holds for ints and for booleans (which are the ints 1
  and 0 in Python).
\<close>

definition as_int :: "json \<Rightarrow> int option" where
  "as_int j = (case j of JInt n \<Rightarrow> Some n | JBool b \<Rightarrow> Some (if b then 1 else 0) | _ \<Rightarrow> None)"

fun first_matching_issue :: "string \<Rightarrow> json list \<Rightarrow> exn + int option" where
  "first_matching_issue todo_id [] = Inr None"
| "first_matching_issue todo_id (issue # rest) =
     (case issue of
        JObj kvs \<Rightarrow>
          (case py_contains (bracketed todo_id)
                  (case map_of kvs ''title'' of Some t \<Rightarrow> t | None \<Rightarrow> JStr []) of
             Inl e \<Rightarrow> Inl e
           | Inr True \<Rightarrow>
               (case as_int (case map_of kvs ''number'' of Some n \<Rightarrow> n | None \<Rightarrow> JNull) of
                  Some issue_num \<Rightarrow> Inr (Some issue_num)
                | None \<Rightarrow> first_matching_issue todo_id rest)
           | Inr False \<Rightarrow> first_matching_issue todo_id rest)
      | _ \<Rightarrow> first_matching_issue todo_id rest)"

definition find_issue_by_todo :: "github \<Rightarrow> string \<Rightarrow> world \<Rightarrow> (exn + int option) \<times> world" where
  "find_issue_by_todo gh todo_id w =
     (if todo_id = [] \<or> strip todo_id = [] then (Inr None, w)
      else
        (case run_gh (IssueListOpenSearch (bracketed todo_id)) 2 w of
           (Inl e, w1) \<Rightarrow> (Inr None, w1)
         | (Inr output, w1) \<Rightarrow>
             if output = [] then (Inr None, w1)
             else (case json_loads gh output of
                     Some (JList issues) \<Rightarrow> (first_matching_issue todo_id issues, w1)
                   | _ \<Rightarrow> (Inr None, w1))))"

subsection \<open>Timelines\<close>

text \<open>
  \<open>latest_pr_from_timeline\<close>: the events are scanned from the last one backwards; the
  first cross-reference whose source is a change-request gives the number.
\<close>

fun scan_cross_referenced :: "json list \<Rightarrow> exn + json" where
  "scan_cross_referenced [] = Inr JNull"
| "scan_cross_referenced (event # rest) =
     (case obj_get event ''event'' JNull of
        Inl e \<Rightarrow> Inl e
      | Inr kind \<Rightarrow>
          if kind = JStr ''cross-referenced'' then
            (case obj_get event ''source'' (JObj []) of
               Inl e \<Rightarrow> Inl e
             | Inr src \<Rightarrow>
                 (case obj_get src ''issue'' (JObj []) of
                    Inl e \<Rightarrow> Inl e
                  | Inr source \<Rightarrow>
                      (case py_contains ''pull_request'' source of
                         Inl e \<Rightarrow> Inl e
                       | Inr True \<Rightarrow> py_index source ''number''
                       | Inr False \<Rightarrow> scan_cross_referenced rest)))
          else scan_cross_referenced rest)"

definition latest_pr_from_timeline :: "github \<Rightarrow> int \<Rightarrow> world \<Rightarrow> (exn + json) \<times> world" where
  "latest_pr_from_timeline gh issue_number w =
     (case api_request gh ''GET'' (IssueTimeline (JInt issue_number)) [TIMELINE_ACCEPT_HEADER]
             True w of
        (Inl e, w1) \<Rightarrow> (Inl e, w1)
      | (Inr events, w1) \<Rightarrow>
          (case events of
             JList evs \<Rightarrow> (scan_cross_referenced (rev evs), w1)
           | _ \<Rightarrow> (Inr JNull, w1)))"

subsection \<open>\<open>check_copilot_signal\<close>\<close>

fun scan_signal :: "json list \<Rightarrow> exn + bool" where
  "scan_signal [] = Inr False"
| "scan_signal (event # rest) =
     (case obj_get event ''event'' JNull of
        Inl e \<Rightarrow> Inl e
      | Inr kind \<Rightarrow>
          if kind = JStr ''copilot_work_finished'' then Inr True else scan_signal rest)"

definition check_copilot_signal :: "github \<Rightarrow> json \<Rightarrow> world \<Rightarrow> (exn + bool) \<times> world" where
  "check_copilot_signal gh pr_number w =
     (case api_request gh ''GET'' (IssueTimeline pr_number) [TIMELINE_ACCEPT_HEADER] True w of
        (Inl e, w1) \<Rightarrow> (Inl e, w1)
      | (Inr events, w1) \<Rightarrow>
          (case events of
             JList evs \<Rightarrow> (scan_signal (rev evs), w1)
           | _ \<Rightarrow> (Inr False, w1)))"

section \<open>Work items and the pipeline\<close>

text \<open>
  \<open>TodoItem\<close> and \<open>WorkItem\<close>. The fields of \<open>TodoItem\<close> carry the prefix \<open>todo_\<close>
  (both classes name their fields \<open>id_full\<close>, \<open>stage_number\<close>, \<open>title\<close>, \<open>file_path\<close>).
\<close>

record todo_item =
  todo_id_full :: string
  todo_stage_number :: nat
  todo_title :: string
  meta_lines :: "string list"
  todo_file_path :: string

record work_item =
  id_full :: string
  stage_number :: nat
  title :: string
  file_path :: string
  todos :: "todo_item list"
  batch_index :: "nat option"
  batch_total :: "nat option"

definition is_batch :: "work_item \<Rightarrow> bool" where
  "is_batch item \<longleftrightarrow> length (todos item) > 1"

text \<open>The parsed command line (\<open>self.args\<close>) and the pipeline object.\<close>

record args =
  poll_interval :: int
  issue_max_wait :: int
  issue_batch_size :: int
  task_max_retries :: int
  task_retry_wait :: int
  dry_run :: bool
  from_beginning :: bool

record pipeline =
  github :: "github option"
  args :: args

subsection \<open>Assignees of a ticket\<close>

text \<open>
  \<open>{(assignee.get("login") or "").lower() for assignee in issue_data.get("assignees", [])
  if assignee}\<close>, used by \<open>_ensure_issue\<close> and by \<open>_reset_issue\<close>.
\<close>

definition assignee_login :: "json \<Rightarrow> exn + string" where
  "assignee_login assignee =
     (case obj_get assignee ''login'' JNull of
        Inl e \<Rightarrow> Inl e
      | Inr login \<Rightarrow>
          if truthy login
          then (case login of JStr s \<Rightarrow> Inr (lower s) | _ \<Rightarrow> Inl AttributeError)
          else Inr (lower []))"

fun collect_logins :: "json list \<Rightarrow> exn + string list" where
  "collect_logins [] = Inr []"
| "collect_logins (assignee # rest) =
     (if truthy assignee then
        (case assignee_login assignee of
           Inl e \<Rightarrow> Inl e
         | Inr l \<Rightarrow> (case collect_logins rest of Inl e \<Rightarrow> Inl e | Inr ls \<Rightarrow> Inr (l # ls)))
      else collect_logins rest)"

definition assignee_logins :: "json \<Rightarrow> exn + string list" where
  "assignee_logins issue_data =
     (case obj_get issue_data ''assignees'' (JList []) of
        Inl e \<Rightarrow> Inl e
      | Inr a \<Rightarrow> (case py_iter a of Inl e \<Rightarrow> Inl e | Inr xs \<Rightarrow> collect_logins xs))"

subsection \<open>\<open>_ensure_issue\<close>\<close>

text \<open>
  The \<open>try\<close> block of \<open>_ensure_issue\<close> (lines 831-850): \<open>Inr True\<close> when it returns the
  existing ticket, \<open>Inr False\<close> when the ticket is not open, \<open>Inl e\<close> when anything in
  the block raises. In the last two cases the caller goes on to create a ticket.
\<close>

definition try_reuse :: "github \<Rightarrow> int \<Rightarrow> world \<Rightarrow> (exn + bool) \<times> world" where
  "try_reuse gh existing w =
     (case get_issue gh existing w of
        (Inl e, w1) \<Rightarrow> (Inl e, w1)
      | (Inr issue_data, w1) \<Rightarrow>
          (case obj_get issue_data ''state'' JNull of
             Inl e \<Rightarrow> (Inl e, w1)
           | Inr state \<Rightarrow>
               if state = JStr ''open'' then
                 (case assignee_logins issue_data of
                    Inl e \<Rightarrow> (Inl e, w1)
                  | Inr assignees \<Rightarrow>
                      if COPILOT_USERNAME \<notin> set assignees then
                        (case add_assignees gh existing COPILOT_ASSIGNEES w1 of
                           (Inl e, w2) \<Rightarrow> (Inl e, w2)
                         | (Inr u, w2) \<Rightarrow> (Inr True, w2))
                      else (Inr True, w1))
               else (Inr False, w1)))"

definition issue_title :: "work_item \<Rightarrow> string" where
  "issue_title item = ''['' @ id_full item @ ''] '' @ title item"

definition create_and_assign :: "github \<Rightarrow> work_item \<Rightarrow> world \<Rightarrow> (exn + int) \<times> world" where
  "create_and_assign gh item w =
     (case create_issue gh (issue_title item) w of
        (Inl e, w1) \<Rightarrow> (Inl e, w1)
      | (Inr issue_num, w1) \<Rightarrow>
          (case add_assignees gh issue_num COPILOT_ASSIGNEES w1 of
             (Inl e, w2) \<Rightarrow> (Inl (RuntimeError (CannotAssign issue_num e)), w2)
           | (Inr u, w2) \<Rightarrow> (Inr issue_num, w2)))"

definition ensure_issue :: "pipeline \<Rightarrow> work_item \<Rightarrow> world \<Rightarrow> (exn + int) \<times> world" where
  "ensure_issue p item w =
     (if dry_run (args p) then (Inr 0, w)
      else
        (case github p of
           None \<Rightarrow> (Inl (RuntimeError GithubUnavailable), w)
         | Some gh \<Rightarrow>
             (case find_issue_by_todo gh (id_full item) w of
                (Inl e, w1) \<Rightarrow> (Inl e, w1)
              | (Inr None, w1) \<Rightarrow> create_and_assign gh item w1
              | (Inr (Some existing), w1) \<Rightarrow>
                  if existing \<noteq> 0 then
                    (case try_reuse gh existing w1 of
                       (Inr True, w2) \<Rightarrow> (Inr existing, w2)
                     | (Inr False, w2) \<Rightarrow> create_and_assign gh item w2
                     | (Inl e, w2) \<Rightarrow> create_and_assign gh item w2)
                  else create_and_assign gh item w1)))"

subsection \<open>\<open>_reset_issue\<close>\<close>

definition reset_issue :: "github \<Rightarrow> int \<Rightarrow> world \<Rightarrow> (exn + unit) \<times> world" where
  "reset_issue gh issue_num w =
     (case get_issue gh issue_num w of
        (Inl e, w1) \<Rightarrow> (Inl e, w1)
      | (Inr issue_data, w1) \<Rightarrow>
          (case obj_get issue_data ''state'' JNull of
             Inl e \<Rightarrow> (Inl e, w1)
           | Inr state \<Rightarrow>
               if state = JStr ''closed'' then (Inr (), logger (SkipResetClosed issue_num) w1)
               else
                 (case assignee_logins issue_data of
                    Inl e \<Rightarrow> (Inl e, w1)
                  | Inr assignees \<Rightarrow>
                      add_assignees gh issue_num COPILOT_ASSIGNEES
                        (if COPILOT_USERNAME \<in> set assignees
                         then time_sleep 2 (remove_assignees gh issue_num COPILOT_ASSIGNEES w1)
                         else w1))))"

subsection \<open>\<open>_wait_and_merge\<close>\<close>

text \<open>The local variables of the monitoring loop.\<close>

record wm_state =
  reset_count :: nat
  issue_start_time :: real
  wait_start_time :: real
  pr_create_time :: "real option"
  current_pr :: "json option"
  last_heartbeat :: real

text \<open>How one pass through the body of \<open>while True\<close> ends.\<close>

datatype step = Continue wm_state | Return | Raise exn

definition HEARTBEAT_INTERVAL :: int where "HEARTBEAT_INTERVAL = 300"

text \<open>The end of the loop body (lines 1102-1121): heartbeat, then the poll sleep.\<close>

definition heartbeat_and_sleep :: "args \<Rightarrow> wm_state \<Rightarrow> world \<Rightarrow> step \<times> world" where
  "heartbeat_and_sleep a s w =
     (case time_time w of
        (current_time, w1) \<Rightarrow>
          (Continue (if current_time - last_heartbeat s \<ge> real_of_int HEARTBEAT_INTERVAL
                     then s\<lparr>last_heartbeat := current_time\<rparr> else s),
           time_sleep (poll_interval a) w1))"

text \<open>
  The common tail of the four reset sites: \<open>self._reset_issue(...)\<close>,
  \<open>reset_count += 1\<close>, (at all sites but the first) \<open>current_pr = None\<close> and
  \<open>pr_create_time = None\<close>, \<open>wait_start_time = time.time()\<close>,
  \<open>time.sleep(RESET_WAIT_TIME)\<close>, \<open>continue\<close>. An exception of the reset leaves
  \<open>_wait_and_merge\<close>.
\<close>

definition reset_and_continue :: "github \<Rightarrow> int \<Rightarrow> bool \<Rightarrow> wm_state \<Rightarrow> world \<Rightarrow> step \<times> world" where
  "reset_and_continue gh issue_num clear_pr s w =
     (case reset_issue gh issue_num w of
        (Inl e, w1) \<Rightarrow> (Raise e, w1)
      | (Inr u, w1) \<Rightarrow>
          (case time_time w1 of
             (t, w2) \<Rightarrow>
               (Continue (s\<lparr>reset_count := reset_count s + 1,
                            current_pr := (if clear_pr then None else current_pr s),
                            pr_create_time := (if clear_pr then None else pr_create_time s),
                            wait_start_time := t\<rparr>),
                time_sleep RESET_WAIT_TIME w2)))"

text \<open>
  \<open>try: comment_issue(...); close_pr(..., delete_branch=True) except Exception: pass\<close>
\<close>

definition annotate_and_close :: "github \<Rightarrow> json \<Rightarrow> world \<Rightarrow> world" where
  "annotate_and_close gh pr_num w =
     (case comment_issue gh pr_num w of
        (Inl e, w1) \<Rightarrow> w1
      | (Inr u, w1) \<Rightarrow> snd (close_pr gh pr_num True w1))"

text \<open>No change-request in the timeline (lines 957-971).\<close>

definition tick_no_pr :: "args \<Rightarrow> github \<Rightarrow> int \<Rightarrow> wm_state \<Rightarrow> world \<Rightarrow> step \<times> world" where
  "tick_no_pr a gh issue_num s w =
     (case time_time w of
        (t, w1) \<Rightarrow>
          if t - wait_start_time s > real_of_int PR_WAIT_TIMEOUT then
            (if reset_count s \<ge> DEFAULT_MAX_PR_RESETS
             then (Raise (RuntimeError (WaitPrResetLimit issue_num)), w1)
             else reset_and_continue gh issue_num False s
                    (logger (ResetTriggered NoPrTimeout (reset_count s + 1)) w1))
          else heartbeat_and_sleep a s w1)"

text \<open>The completion signal was seen (lines 1011-1065).\<close>

definition merged_after_failure :: "github \<Rightarrow> json \<Rightarrow> world \<Rightarrow> bool \<times> world" where
  "merged_after_failure gh pr_num w =
     (case get_pull gh pr_num w of
        (Inl e, w1) \<Rightarrow> (False, w1)
      | (Inr pr_status, w1) \<Rightarrow>
          (case obj_get pr_status ''merged_at'' JNull of
             Inl e \<Rightarrow> (False, w1)
           | Inr m \<Rightarrow> (truthy m, w1)))"

definition signal_path :: "github \<Rightarrow> int \<Rightarrow> json \<Rightarrow> wm_state \<Rightarrow> world \<Rightarrow> step \<times> world" where
  "signal_path gh issue_num pr_num s w =
     (case merge_pull gh pr_num (time_sleep PR_READY_WAIT (mark_pr_ready gh pr_num w)) of
        (Inr u, w1) \<Rightarrow> (Return, w1)
      | (Inl e, w1) \<Rightarrow>
          (case merged_after_failure gh pr_num w1 of
             (True, w2) \<Rightarrow> (Return, w2)
           | (False, w2) \<Rightarrow>
               if reset_count s \<ge> DEFAULT_MAX_PR_RESETS
               then (Raise (RuntimeError (MergeFailedResetLimit issue_num e)), w2)
               else reset_and_continue gh issue_num True s
                      (annotate_and_close gh pr_num
                         (logger (ResetTriggered MergeFailed (reset_count s + 1)) w2))))"

text \<open>No signal: the age of the change-request against \<open>PR_TIMEOUT\<close> (lines 1068-1100).\<close>

definition timeout_path :: "args \<Rightarrow> github \<Rightarrow> int \<Rightarrow> json \<Rightarrow> wm_state \<Rightarrow> world \<Rightarrow> step \<times> world" where
  "timeout_path a gh issue_num pr_num s w =
     (case pr_create_time s of
        None \<Rightarrow> heartbeat_and_sleep a s w
      | Some created \<Rightarrow>
          if created = 0 then heartbeat_and_sleep a s w
          else
            (case time_time w of
               (t, w1) \<Rightarrow>
                 if t - created > real_of_int PR_TIMEOUT then
                   (if reset_count s \<ge> DEFAULT_MAX_PR_RESETS
                    then (Raise (RuntimeError (PrTimeoutResetLimit issue_num)), w1)
                    else reset_and_continue gh issue_num True s
                           (annotate_and_close gh pr_num
                              (logger (ResetTriggered PrTimeout (reset_count s + 1)) w1)))
                 else heartbeat_and_sleep a s w1))"

text \<open>A change-request whose state was fetched (lines 989-1100).\<close>

definition tick_open_pr ::
  "args \<Rightarrow> github \<Rightarrow> int \<Rightarrow> json \<Rightarrow> json \<Rightarrow> wm_state \<Rightarrow> world \<Rightarrow> step \<times> world" where
  "tick_open_pr a gh issue_num pr_num pr s w =
     (case obj_get pr ''merged_at'' JNull of
        Inl e \<Rightarrow> (Raise e, w)
      | Inr merged_at \<Rightarrow>
          if truthy merged_at then (Return, w)
          else
            (case obj_get pr ''state'' JNull of
               Inl e \<Rightarrow> (Raise e, w)
             | Inr state \<Rightarrow>
                 if state = JStr ''closed'' then
                   (if reset_count s \<ge> DEFAULT_MAX_PR_RESETS
                    then (Raise (RuntimeError (PrClosedResetLimit issue_num)), w)
                    else reset_and_continue gh issue_num True s
                           (logger (ResetTriggered PrClosed (reset_count s + 1)) w))
                 else
                   (case check_copilot_signal gh pr_num w of
                      (Inl e, w1) \<Rightarrow> (Raise e, w1)
                    | (Inr True, w1) \<Rightarrow> signal_path gh issue_num pr_num s (logger SignalDetected w1)
                    | (Inr False, w1) \<Rightarrow> timeout_path a gh issue_num pr_num s w1)))"

text \<open>A change-request is linked in the timeline (lines 973-1100).\<close>

definition track_pr :: "json \<Rightarrow> wm_state \<Rightarrow> world \<Rightarrow> wm_state \<times> world" where
  "track_pr pr_num s w =
     (if current_pr s \<noteq> Some pr_num then
        (case time_time w of
           (t, w1) \<Rightarrow>
             (s\<lparr>current_pr := Some pr_num, pr_create_time := Some t\<rparr>,
              logger (DetectedPr pr_num) w1))
      else (s, w))"

definition tick_pr :: "args \<Rightarrow> github \<Rightarrow> int \<Rightarrow> json \<Rightarrow> wm_state \<Rightarrow> world \<Rightarrow> step \<times> world" where
  "tick_pr a gh issue_num pr_num s w =
     (case track_pr pr_num s w of
        (s1, w1) \<Rightarrow>
          (case get_pull gh pr_num w1 of
             (Inl e, w2) \<Rightarrow> (Continue s1, time_sleep RETRY_SLEEP_SHORT w2)
           | (Inr pr, w2) \<Rightarrow> tick_open_pr a gh issue_num pr_num pr s1 w2))"

text \<open>\<open>not current_pr\<close>\<close>

definition no_current_pr :: "wm_state \<Rightarrow> bool" where
  "no_current_pr s = (case current_pr s of None \<Rightarrow> True | Some j \<Rightarrow> \<not> truthy j)"

text \<open>One pass through the body of \<open>while True\<close> (lines 927-1121).\<close>

definition tick :: "args \<Rightarrow> github \<Rightarrow> int \<Rightarrow> wm_state \<Rightarrow> world \<Rightarrow> step \<times> world" where
  "tick a gh issue_num s w =
     (case time_time w of
        (now, w0) \<Rightarrow>
          if now - issue_start_time s \<ge> real_of_int (issue_max_wait a)
          then (Raise (RuntimeError (IssueTotalTimeout issue_num)), w0)
          else
            (case get_issue gh issue_num w0 of
               (Inl e, w1) \<Rightarrow> (Continue s, time_sleep RETRY_SLEEP_SHORT w1)
             | (Inr issue_data, w1) \<Rightarrow>
                 (case obj_get issue_data ''state'' JNull of
                    Inl e \<Rightarrow> (Continue s, time_sleep RETRY_SLEEP_SHORT w1)
                  | Inr issue_state \<Rightarrow>
                      if issue_state = JStr ''closed'' then
                        (Return,
                         (if no_current_pr s then logger (IssueClosedNoPrWarning issue_num)
                          else (\<lambda>x. x))
                           (logger (IssueClosedInfo issue_num) w1))
                      else
                        (case latest_pr_from_timeline gh issue_num w1 of
                           (Inl e, w2) \<Rightarrow> (Continue s, time_sleep RETRY_SLEEP_SHORT w2)
                         | (Inr pr_num, w2) \<Rightarrow>
                             if \<not> truthy pr_num then tick_no_pr a gh issue_num s w2
                             else tick_pr a gh issue_num pr_num s w2))))"

text \<open>
  The loop. It has no bound of its own, so the model counts passes: \<open>None\<close> means that
  the loop is still running after \<open>fuel\<close> passes.
\<close>

fun wm_loop ::
  "nat \<Rightarrow> args \<Rightarrow> github \<Rightarrow> int \<Rightarrow> wm_state \<Rightarrow> world \<Rightarrow> (exn + unit) option \<times> world" where
  "wm_loop 0 a gh issue_num s w = (None, w)"
| "wm_loop (Suc fuel) a gh issue_num s w =
     (case tick a gh issue_num s w of
        (Continue s1, w1) \<Rightarrow> wm_loop fuel a gh issue_num s1 w1
      | (Return, w1) \<Rightarrow> (Some (Inr ()), w1)
      | (Raise e, w1) \<Rightarrow> (Some (Inl e), w1))"

definition initial_state :: "real \<Rightarrow> wm_state" where
  "initial_state t =
     \<lparr>reset_count = 0, issue_start_time = t, wait_start_time = t, pr_create_time = None,
      current_pr = None, last_heartbeat = t\<rparr>"

definition wait_and_merge ::
  "nat \<Rightarrow> pipeline \<Rightarrow> work_item \<Rightarrow> int \<Rightarrow> world \<Rightarrow> (exn + unit) option \<times> world" where
  "wait_and_merge fuel p item issue_num w =
     (if dry_run (args p) then (Some (Inr ()), w)
      else
        (case github p of
           None \<Rightarrow> (Some (Inl (RuntimeError GithubUnavailable)), w)
         | Some gh \<Rightarrow>
             (case time_time w of
                (t, w1) \<Rightarrow> wm_loop fuel (args p) gh issue_num (initial_state t) w1)))"

subsection \<open>\<open>Pipeline.run\<close>: the batch runner\<close>

text \<open>The body of the \<open>try\<close> of one attempt (lines 793-795).\<close>

definition attempt_item ::
  "nat \<Rightarrow> pipeline \<Rightarrow> work_item \<Rightarrow> world \<Rightarrow> (exn + unit) option \<times> world" where
  "attempt_item fuel p item w =
     (case ensure_issue p item w of
        (Inl e, w1) \<Rightarrow> (Some (Inl e), w1)
      | (Inr issue_num, w1) \<Rightarrow>
          if \<not> dry_run (args p) then wait_and_merge fuel p item issue_num w1
          else (Some (Inr ()), w1))"

definition max_task_retries :: "pipeline \<Rightarrow> nat" where
  "max_task_retries p = nat (max 1 (task_max_retries (args p)))"

definition base_retry_wait :: "pipeline \<Rightarrow> int" where
  "base_retry_wait p = max 1 (task_retry_wait (args p))"

text \<open>
  \<open>for attempt in range(1, max_task_retries + 1)\<close>. The result is \<open>Some None\<close> when an
  attempt succeeded, \<open>Some (Some e)\<close> when the last attempt failed with \<open>e\<close>, and \<open>None\<close>
  when a monitoring loop is still running.
\<close>

function retry_item ::
  "nat \<Rightarrow> pipeline \<Rightarrow> work_item \<Rightarrow> nat \<Rightarrow> world \<Rightarrow> exn option option \<times> world" where
  "retry_item fuel p item attempt w =
     (case attempt_item fuel p item w of
        (None, w1) \<Rightarrow> (None, w1)
      | (Some (Inr u), w1) \<Rightarrow> (Some None, logger (ItemDone (id_full item)) w1)
      | (Some (Inl e), w1) \<Rightarrow>
          if attempt < max_task_retries p then
            retry_item fuel p item (Suc attempt)
              (time_sleep (base_retry_wait p * 2 ^ (attempt - 1))
                 (logger (RetryWait (base_retry_wait p * 2 ^ (attempt - 1))) w1))
          else (Some (Some e), logger (ItemFailed (id_full item)) w1))"
  by pat_completeness auto
termination
  by (relation "measure (\<lambda>(fuel, p, item, attempt, w). max_task_retries p - attempt)") auto

declare retry_item.simps [simp del]

text \<open>\<open>for i, item in enumerate(items_list, 1)\<close>, with \<open>failed_items\<close>.\<close>

fun run_items ::
  "nat \<Rightarrow> pipeline \<Rightarrow> work_item list \<Rightarrow> (string \<times> exn) list \<Rightarrow> world \<Rightarrow>
     (string \<times> exn) list option \<times> world" where
  "run_items fuel p [] failed_items w = (Some failed_items, w)"
| "run_items fuel p (item # rest) failed_items w =
     (case retry_item fuel p item 1 w of
        (None, w1) \<Rightarrow> (None, w1)
      | (Some None, w1) \<Rightarrow> run_items fuel p rest failed_items w1
      | (Some (Some e), w1) \<Rightarrow> run_items fuel p rest (failed_items @ [(id_full item, e)]) w1)"

text \<open>
  \<open>run\<close> returns nothing: \<open>Some ()\<close> says that it returned, \<open>None\<close> that a monitoring loop
  is still running. The failures are reported in the log only.
\<close>

definition run :: "nat \<Rightarrow> pipeline \<Rightarrow> work_item list \<Rightarrow> world \<Rightarrow> unit option \<times> world" where
  "run fuel p items_list w =
     (if length items_list = 0 then (Some (), w)
      else
        (case run_items fuel p items_list [] w of
           (None, w1) \<Rightarrow> (None, w1)
         | (Some failed_items, w1) \<Rightarrow>
             (Some (), if failed_items \<noteq> [] then logger (FailureReport failed_items) w1 else w1)))"

section \<open>The work queue\<close>

text \<open>
  The three regular expressions of the source are matched by the library \<open>re\<close>; the
  model takes what the matches give:
  \<^item> \<open>stage_file_pattern name\<close>: \<open>STAGE_FILE_PATTERN.match(name)\<close>, as
    \<open>int(match.group(1))\<close>;
  \<^item> \<open>todo_line_pattern line\<close>: \<open>TODO_LINE_PATTERN.match(line)\<close>, as the groups
    \<open>(status, todo_id, title)\<close>;
  \<^item> \<open>bracket_search title\<close>: \<open>re.search(r"\[([^\]]+?)\]", title)\<close>, as \<open>group(1)\<close>.
\<close>

record patterns =
  stage_file_pattern :: "string \<Rightarrow> nat option"
  todo_line_pattern :: "string \<Rightarrow> (string \<times> string \<times> string) option"
  bracket_search :: "string \<Rightarrow> string option"

text \<open>
  The directory \<open>todo/\<close>: whether it exists and is a directory, and the files that
  \<open>glob("Stage-*.todos.md")\<close> lists, each with its lines (\<open>None\<close>: the path is missing,
  is not a file, or cannot be read).
\<close>

record stage_file =
  file_name :: string
  file_lines :: "string list option"

record todo_dir =
  dir_exists :: bool
  dir_is_dir :: bool
  dir_glob :: "stage_file list"

definition extract_stage_number_from_filename :: "patterns \<Rightarrow> string \<Rightarrow> exn + nat" where
  "extract_stage_number_from_filename pats name =
     (case stage_file_pattern pats name of None \<Rightarrow> Inl ValueError | Some n \<Rightarrow> Inr n)"

definition stage_file_sort_key :: "patterns \<Rightarrow> stage_file \<Rightarrow> nat \<times> string" where
  "stage_file_sort_key pats f =
     (case stage_file_pattern pats (file_name f) of Some n \<Rightarrow> (n, file_name f)
      | None \<Rightarrow> (0, file_name f))"

subsection \<open>\<open>parse_stage_structure\<close>\<close>

definition is_group_header :: "string \<Rightarrow> bool" where
  "is_group_header line \<longleftrightarrow> starts_with (strip line) ''##'' \<and> str_in ''Group'' line"

definition is_boundary :: "patterns \<Rightarrow> string \<Rightarrow> bool" where
  "is_boundary pats line \<longleftrightarrow> todo_line_pattern pats line \<noteq> None \<or> is_group_header line"

definition clean_meta :: "string list \<Rightarrow> string list" where
  "clean_meta meta = rev (dropWhile (\<lambda>l. strip l = [] \<or> strip l = ''---'') (rev meta))"

function parse_todos :: "patterns \<Rightarrow> nat \<Rightarrow> string \<Rightarrow> string list \<Rightarrow> todo_item list" where
  "parse_todos pats stage_num path [] = []"
| "parse_todos pats stage_num path (line # rest) =
     (case todo_line_pattern pats line of
        None \<Rightarrow> parse_todos pats stage_num path rest
      | Some (status, todo_id, ttl) \<Rightarrow>
          if lower status = ''x''
          then parse_todos pats stage_num path (dropWhile (\<lambda>l. \<not> is_boundary pats l) rest)
          else
            \<lparr>todo_id_full = strip todo_id, todo_stage_number = stage_num,
             todo_title = strip ttl,
             meta_lines = clean_meta (takeWhile (\<lambda>l. \<not> is_boundary pats l) rest),
             todo_file_path = path\<rparr>
            # parse_todos pats stage_num path (dropWhile (\<lambda>l. \<not> is_boundary pats l) rest))"
  by pat_completeness auto
termination
  by (relation "measure (\<lambda>(pats, stage_num, path, ls). length ls)")
     (auto simp: le_imp_less_Suc length_dropWhile_le)

definition parse_stage_structure :: "patterns \<Rightarrow> stage_file \<Rightarrow> exn + nat \<times> todo_item list" where
  "parse_stage_structure pats f =
     (case extract_stage_number_from_filename pats (file_name f) of
        Inl e \<Rightarrow> Inl e
      | Inr stage_num \<Rightarrow>
          (case file_lines f of
             None \<Rightarrow> Inr (stage_num, [])
           | Some ls \<Rightarrow> Inr (stage_num, parse_todos pats stage_num (file_name f) ls)))"

subsection \<open>\<open>iter_work_items\<close>\<close>

function show_nat :: "nat \<Rightarrow> string" where
  "show_nat n =
     (if n < 10 then [''0123456789'' ! n]
      else show_nat (n div 10) @ [''0123456789'' ! (n mod 10)])"
  by pat_completeness auto
termination
  by (relation "measure (\<lambda>n. n)") auto

declare show_nat.simps [simp del]

text \<open>\<open>f"{n:02d}"\<close>\<close>

definition fmt02 :: "nat \<Rightarrow> string" where
  "fmt02 n = (if n < 10 then ''0'' @ show_nat n else show_nat n)"

text \<open>\<open>path.stem\<close>: the name without its last suffix.\<close>

definition stem :: "string \<Rightarrow> string" where
  "stem name =
     (let suffix_len = length (takeWhile (\<lambda>c. c \<noteq> CHR ''.'') (rev name))
      in if CHR ''.'' \<in> set name \<and> 0 < suffix_len \<and> Suc suffix_len < length name
         then take (length name - Suc suffix_len) name
         else name)"

text \<open>\<open>[todos[i:i + batch_size] for i in range(0, len(todos), batch_size)]\<close>\<close>

function chunks :: "nat \<Rightarrow> 'a list \<Rightarrow> 'a list list" where
  "chunks n xs = (if n = 0 \<or> xs = [] then [] else take n xs # chunks n (drop n xs))"
  by pat_completeness auto
termination
  by (relation "measure (\<lambda>(n, xs). length xs)") auto

declare chunks.simps [simp del]

definition make_item ::
  "nat \<Rightarrow> stage_file \<Rightarrow> nat \<Rightarrow> nat \<times> todo_item list \<Rightarrow> work_item" where
  "make_item stage_num f n_batches ib =
     (case ib of
        (i, batch) \<Rightarrow>
          if length batch = 1 then
            \<lparr>id_full = todo_id_full (hd batch), stage_number = stage_num,
             title = todo_title (hd batch), file_path = file_name f, todos = batch,
             batch_index = None, batch_total = None\<rparr>
          else
            \<lparr>id_full = ''S'' @ fmt02 stage_num @ ''-BATCH-'' @ fmt02 i,
             stage_number = stage_num,
             title = stem (file_name f) @ '' batch '' @ show_nat i @ ''/'' @ show_nat n_batches,
             file_path = file_name f, todos = batch,
             batch_index = Some i, batch_total = Some n_batches\<rparr>)"

definition stage_items :: "nat \<Rightarrow> stage_file \<Rightarrow> nat \<Rightarrow> todo_item list \<Rightarrow> work_item list" where
  "stage_items batch_size f stage_num tds =
     (let batches = chunks batch_size tds
      in map (make_item stage_num f (length batches)) (zip [1 ..< Suc (length batches)] batches))"

text \<open>The two \<open>continue\<close>s of the filter loop (lines 682-693).\<close>

definition is_completed :: "string set \<Rightarrow> work_item \<Rightarrow> bool" where
  "is_completed completed_ids item \<longleftrightarrow>
     id_full item \<in> completed_ids \<or>
     (is_batch item \<and> list_all (\<lambda>todo. todo_id_full todo \<in> completed_ids) (todos item))"

definition filtered_items ::
  "patterns \<Rightarrow> nat \<Rightarrow> string set \<Rightarrow> stage_file \<Rightarrow> exn + work_item list" where
  "filtered_items pats batch_size completed_ids f =
     (case parse_stage_structure pats f of
        Inl e \<Rightarrow> Inl e
      | Inr (stage_num, tds) \<Rightarrow>
          Inr (filter (\<lambda>item. \<not> is_completed completed_ids item)
                 (stage_items batch_size f stage_num tds)))"

text \<open>\<open>for path in files\<close>: the first file with something left to do.\<close>

fun first_pending ::
  "patterns \<Rightarrow> nat \<Rightarrow> string set \<Rightarrow> stage_file list \<Rightarrow> exn + work_item list" where
  "first_pending pats batch_size completed_ids [] = Inr []"
| "first_pending pats batch_size completed_ids (f # fs) =
     (case filtered_items pats batch_size completed_ids f of
        Inl e \<Rightarrow> Inl e
      | Inr items \<Rightarrow>
          if items \<noteq> [] then Inr items
          else first_pending pats batch_size completed_ids fs)"

definition sorted_files :: "patterns \<Rightarrow> stage_file list \<Rightarrow> stage_file list" where
  "sorted_files pats fs = sort_key (stage_file_sort_key pats) fs"

definition iter_work_items ::
  "patterns \<Rightarrow> todo_dir \<Rightarrow> int \<Rightarrow> string set \<Rightarrow> exn + work_item list" where
  "iter_work_items pats todo_root batch_size completed_ids =
     (if \<not> dir_exists todo_root then Inr []
      else if \<not> dir_is_dir todo_root then Inr []
      else if list_ex (\<lambda>f. stage_file_pattern pats (file_name f) = None) (dir_glob todo_root)
        then Inl ValueError
      else first_pending pats (nat (max 1 batch_size)) completed_ids
             (sorted_files pats (dir_glob todo_root)))"

subsection \<open>\<open>get_recent_completed_todos\<close>\<close>

fun completed_from :: "patterns \<Rightarrow> json list \<Rightarrow> exn + string list" where
  "completed_from pats [] = Inr []"
| "completed_from pats (issue # rest) =
     (case issue of
        JObj kvs \<Rightarrow>
          (case (case map_of kvs ''title'' of Some t \<Rightarrow> t | None \<Rightarrow> JStr []) of
             JStr t \<Rightarrow>
               (case (if t = [] then None else bracket_search pats t) of
                  Some g \<Rightarrow>
                    (case completed_from pats rest of
                       Inl e \<Rightarrow> Inl e
                     | Inr ids \<Rightarrow> Inr (if strip g \<noteq> [] then strip g # ids else ids))
                | None \<Rightarrow> completed_from pats rest)
           | ttl \<Rightarrow> if truthy ttl then Inl TypeError else completed_from pats rest)
      | _ \<Rightarrow> completed_from pats rest)"

definition get_recent_completed_todos ::
  "pipeline \<Rightarrow> patterns \<Rightarrow> nat \<Rightarrow> world \<Rightarrow> string set \<times> world" where
  "get_recent_completed_todos p pats limit w =
     (case github p of
        None \<Rightarrow> ({}, w)
      | Some gh \<Rightarrow>
          (case list_closed_issues gh limit w of
             (Inl e, w1) \<Rightarrow> ({}, w1)
           | (Inr issues, w1) \<Rightarrow>
               (case completed_from pats issues of
                  Inl e \<Rightarrow> ({}, w1)
                | Inr ids \<Rightarrow> (set ids, w1))))"

section \<open>\<open>main\<close>: the scanning loop\<close>

text \<open>
  How one pass through the body of the \<open>while True\<close> of \<open>main\<close> (lines 1228-1268) ends:
  \<open>break\<close>, the next pass (\<open>continue\<close>, or the end of the body), an exception that
  leaves the loop, or a monitoring loop that is still running.
\<close>

datatype main_step = MBreak | MNext | MRaise exn | MRunning

definition main_pass ::
  "nat \<Rightarrow> pipeline \<Rightarrow> patterns \<Rightarrow> todo_dir \<Rightarrow> world \<Rightarrow> main_step \<times> world" where
  "main_pass fuel p pats todo_root w =
     (case (if \<not> from_beginning (args p) then get_recent_completed_todos p pats 1000 w
            else ({}, w)) of
        (completed_ids, w1) \<Rightarrow>
          (case iter_work_items pats todo_root (issue_batch_size (args p)) completed_ids of
             Inl e \<Rightarrow>
               if dry_run (args p) then (MRaise e, w1)
               else (MNext, time_sleep MAIN_ERROR_WAIT w1)
           | Inr work_items \<Rightarrow>
               if work_items = [] then
                 (if \<not> dry_run (args p) then (MNext, time_sleep (poll_interval (args p)) w1)
                  else (MBreak, w1))
               else
                 (case run fuel p work_items w1 of
                    (None, w2) \<Rightarrow> (MRunning, w2)
                  | (Some u, w2) \<Rightarrow> if dry_run (args p) then (MBreak, w2) else (MNext, w2))))"

text \<open>
  The loop and the exit status of \<open>main\<close>: 0 after \<open>break\<close>, 1 when an exception left the
  loop. \<open>None\<close>: the process has not exited after \<open>passes\<close> passes.
\<close>

fun main_loop ::
  "nat \<Rightarrow> nat \<Rightarrow> pipeline \<Rightarrow> patterns \<Rightarrow> todo_dir \<Rightarrow> world \<Rightarrow> int option \<times> world" where
  "main_loop 0 fuel p pats todo_root w = (None, w)"
| "main_loop (Suc passes) fuel p pats todo_root w =
     (case main_pass fuel p pats todo_root w of
        (MBreak, w1) \<Rightarrow> (Some 0, w1)
      | (MNext, w1) \<Rightarrow> main_loop passes fuel p pats todo_root w1
      | (MRaise e, w1) \<Rightarrow> (Some 1, w1)
      | (MRunning, w1) \<Rightarrow> (None, w1))"

section \<open>Notions used in the statements\<close>

text \<open>A timeline event that is an object; the completion marker; the timeline request.\<close>


definition is_marker :: "json \<Rightarrow> bool" where
  "is_marker ev \<longleftrightarrow> obj_get ev ''event'' JNull = Inr (JStr ''copilot_work_finished'')"

definition is_obj :: "json \<Rightarrow> bool" where
  "is_obj j = (case j of JObj kvs \<Rightarrow> True | _ \<Rightarrow> False)"

definition timeline_cmd :: "json \<Rightarrow> gh_cmd" where
  "timeline_cmd n = Api ''GET'' (IssueTimeline n) [TIMELINE_ACCEPT_HEADER]"


text \<open>The stage number that the name of a stage file carries.\<close>

definition stage_of :: "patterns \<Rightarrow> stage_file \<Rightarrow> nat" where
  "stage_of pats f = fst (stage_file_sort_key pats f)"

text \<open>
  What a call adds to the trace. \<open>extends A w w'\<close>: the world \<open>w'\<close> comes after \<open>w\<close> on the
  same tapes, and every event added to the trace is in \<open>A\<close>.
\<close>

definition new_events :: "world \<Rightarrow> world \<Rightarrow> event list" where
  "new_events w w' = drop (length (trace w)) (trace w')"

definition extends :: "event set \<Rightarrow> world \<Rightarrow> world \<Rightarrow> bool" where
  "extends A w w' \<longleftrightarrow>
     procs w' = procs w \<and> clock w' = clock w \<and>
     (\<exists>evs. trace w' = trace w @ evs \<and> set evs \<subseteq> A)"

text \<open>The events of running the commands \<open>C\<close>: the commands and the waits between attempts.\<close>

definition gh_events :: "gh_cmd set \<Rightarrow> event set" where
  "gh_events C = Run ` C \<union> range Sleep"

text \<open>The commands that address ticket \<open>n\<close> without creating anything.\<close>

definition ticket_cmds :: "int \<Rightarrow> gh_cmd set" where
  "ticket_cmds n = {IssueView n} \<union> range (IssueAddAssignee n) \<union> range (IssueRemoveAssignee n)"

text \<open>The log lines of a trace, and the reset numbers that a list of log lines announces.\<close>

fun log_of :: "event \<Rightarrow> log_line list" where
  "log_of (Log l) = [l]"
| "log_of (Run c) = []"
| "log_of (Sleep d) = []"

definition logs :: "world \<Rightarrow> log_line list" where
  "logs w = concat (map log_of (trace w))"

fun reset_of :: "log_line \<Rightarrow> (trigger \<times> nat) list" where
  "reset_of (ResetTriggered t k) = [(t, k)]"
| "reset_of l = []"

definition resets_of :: "log_line list \<Rightarrow> (trigger \<times> nat) list" where
  "resets_of ls = concat (map reset_of ls)"

text \<open>The four messages that report an exhausted reset budget, and the ticket they name.\<close>

fun limit_issue :: "exn \<Rightarrow> int option" where
  "limit_issue (RuntimeError (WaitPrResetLimit n)) = Some n"
| "limit_issue (RuntimeError (PrClosedResetLimit n)) = Some n"
| "limit_issue (RuntimeError (MergeFailedResetLimit n e)) = Some n"
| "limit_issue (RuntimeError (PrTimeoutResetLimit n)) = Some n"
| "limit_issue e = None"

text \<open>
  What one pass of the monitoring loop may do with the reset budget. \<open>c\<close> is the reset
  count before the pass, \<open>r\<close> how the pass ends and \<open>ls\<close> the log lines it writes:
  \<^item> at most one reset is announced, as number \<open>c + 1\<close>, and only below the maximum;
  \<^item> when the pass continues, the count has grown by the number of resets announced;
  \<^item> a pass that returns has announced no reset;
  \<^item> a pass that raises one of the four budget messages names the ticket, had the count
    at the maximum already, and has announced no reset;
  \<^item> a pass that logs the completion signal neither announces an age-timeout reset nor
    raises the age-timeout budget message.
\<close>

definition tick_ok :: "int \<Rightarrow> nat \<Rightarrow> step \<Rightarrow> log_line list \<Rightarrow> bool" where
  "tick_ok n c r ls \<longleftrightarrow>
     (resets_of ls = [] \<or>
      (\<exists>t. resets_of ls = [(t, c + 1)]) \<and> c < DEFAULT_MAX_PR_RESETS) \<and>
     (case r of
        Continue s' \<Rightarrow> reset_count s' = c + length (resets_of ls)
      | Return \<Rightarrow> resets_of ls = []
      | Raise e \<Rightarrow>
          limit_issue e \<noteq> None \<longrightarrow>
            limit_issue e = Some n \<and> DEFAULT_MAX_PR_RESETS \<le> c \<and> resets_of ls = []) \<and>
     (SignalDetected \<in> set ls \<longrightarrow>
        (\<forall>k. (PrTimeout, k) \<notin> set (resets_of ls)) \<and>
        r \<noteq> Raise (RuntimeError (PrTimeoutResetLimit n)))"

text \<open>
  The same for the parts of a pass that come after the change-request was looked up:
  they log neither the closing of the ticket nor a newly detected change-request, and they
  leave the tracked change-request as it is or forget it.
\<close>

definition path_ok :: "int \<Rightarrow> wm_state \<Rightarrow> step \<Rightarrow> log_line list \<Rightarrow> bool" where
  "path_ok n s r ls \<longleftrightarrow>
     tick_ok n (reset_count s) r ls \<and>
     IssueClosedInfo n \<notin> set ls \<and>
     (\<forall>pr. DetectedPr pr \<notin> set ls) \<and>
     (case r of
        Continue s' \<Rightarrow> current_pr s' = None \<or> current_pr s' = current_pr s
      | _ \<Rightarrow> True)"

text \<open>
  A whole pass: the budget facts of \<open>tick_ok\<close>, and what the pass logs about the ticket
  and the tracked change-request. The closing of the ticket is logged only by a pass
  that returns, together with the warning when no change-request is tracked; a pass
  that continues tracks what was tracked before, or nothing, or logs the change-request
  that it newly detected.
\<close>

definition pass_ok :: "int \<Rightarrow> wm_state \<Rightarrow> step \<Rightarrow> log_line list \<Rightarrow> bool" where
  "pass_ok n s r ls \<longleftrightarrow>
     tick_ok n (reset_count s) r ls \<and>
     (case r of
        Continue s' \<Rightarrow>
          IssueClosedInfo n \<notin> set ls \<and>
          (current_pr s' = None \<or> current_pr s' = current_pr s \<or>
           (\<exists>pr. DetectedPr pr \<in> set ls))
      | Return \<Rightarrow>
          IssueClosedInfo n \<in> set ls \<and> current_pr s = None \<longrightarrow>
            IssueClosedNoPrWarning n \<in> set ls
      | Raise e \<Rightarrow> IssueClosedInfo n \<notin> set ls)"


definition plain_event :: "json \<Rightarrow> bool" where
  "plain_event ev =
     (case ev of
        JObj kvs \<Rightarrow>
          if map_of kvs ''event'' = Some (JStr ''cross-referenced'') then
            (case map_of kvs ''source'' of
               Some (JObj src) \<Rightarrow>
                 (case map_of src ''issue'' of
                    Some (JObj isrc) \<Rightarrow> map_of isrc ''pull_request'' = None
                  | _ \<Rightarrow> False)
             | _ \<Rightarrow> False)
          else True
      | _ \<Rightarrow> False)"

text \<open>
  What a reset of ticket \<open>n\<close> may add to the trace: commands that view ticket \<open>n\<close> or
  change its assignees, waits, and the line that a closed ticket was skipped.
\<close>

definition reset_events :: "int \<Rightarrow> event set" where
  "reset_events n = gh_events (ticket_cmds n) \<union> {Log (SkipResetClosed n)}"

section \<open>Example worlds\<close>

text \<open>A world in which every command has the same outcome.\<close>

definition w_const :: "proc_result \<Rightarrow> world" where
  "w_const r = \<lparr>procs = (\<lambda>k. r), nprocs = 0, clock = (\<lambda>k. 0), nclock = 0, trace = []\<rparr>"


text \<open>A world given by a script of outcomes and clock readings, and then defaults.\<close>

definition tape :: "'a list \<Rightarrow> 'a \<Rightarrow> nat \<Rightarrow> 'a" where
  "tape xs d k = (if k < length xs then xs ! k else d)"

definition w_script :: "proc_result list \<Rightarrow> proc_result \<Rightarrow> real list \<Rightarrow> world" where
  "w_script rs d ts =
     \<lparr>procs = tape rs d, nprocs = 0, clock = tape ts 0, nclock = 0, trace = []\<rparr>"

text \<open>A client whose decoder knows a few replies by name.\<close>

definition event_of :: "string \<Rightarrow> json" where
  "event_of kind = JObj [(''event'', JStr kind)]"

definition cross_ref :: "int \<Rightarrow> json" where
  "cross_ref n =
     JObj [(''event'', JStr ''cross-referenced''),
           (''source'', JObj [(''issue'',
              JObj [(''number'', JInt n), (''pull_request'', JObj [(''url'', JStr ''u'')])])])]"

definition ex_timeline :: "json list" where
  "ex_timeline =
     [event_of ''labeled'', event_of ''copilot_work_finished'', event_of ''commented'', event_of ''committed'',
      event_of ''review_requested'']"

definition ex_replies :: "(string \<times> json) list" where
  "ex_replies =
     [(''SIGNALED'', JList ex_timeline),
      (''QUIET'', JList [event_of ''labeled'', event_of ''commented'']),
      (''LINKS'', JList [cross_ref 11, event_of ''commented'', cross_ref 12, event_of ''labeled'']),
      (''NOLINK'', JList [event_of ''assigned'']),
      (''OPEN'', JObj [(''number'', JInt 7), (''state'', JStr ''open''), (''assignees'', JList [])]),
      (''OPEN_ASSIGNED'', JObj [(''number'', JInt 7), (''state'', JStr ''open''),
          (''assignees'', JList [JObj [(''login'', JStr ''Copilot'')]])]),
      (''CLOSED'', JObj [(''number'', JInt 7), (''state'', JStr ''closed''),
          (''assignees'', JList [])]),
      (''FOUND'', JList [JObj [(''number'', JInt 7), (''title'', JStr ''[T1] first'')]]),
      (''PR_OPEN'', JObj [(''number'', JInt 12), (''state'', JStr ''OPEN''),
          (''mergedAt'', JNull), (''isDraft'', JBool True)]),
      (''PR_CLOSED'', JObj [(''number'', JInt 12), (''state'', JStr ''closed''),
          (''mergedAt'', JNull), (''isDraft'', JBool False)]),
      (''PR_MERGED'', JObj [(''number'', JInt 12), (''state'', JStr ''MERGED''),
          (''mergedAt'', JStr ''2025-01-01T00:00:00Z''), (''isDraft'', JBool False)])]"

definition ex_gh :: github where
  "ex_gh = \<lparr>repo_ref = ''owner/repo'', json_loads = map_of ex_replies,
            py_int = map_of [(''8'', 8)]\<rparr>"

text \<open>Two stage files: the first stage is done but for one item, the second is untouched.\<close>

definition ex_patterns :: patterns where
  "ex_patterns =
     \<lparr>stage_file_pattern = map_of [(''Stage-01_plan.todos.md'', 1), (''Stage-02_draft.todos.md'', 2)],
      todo_line_pattern = map_of
        [(''### - [x] [T1] first'', (''x'', ''T1'', ''first'')),
         (''### - [ ] [T2] second'', ('' '', ''T2'', ''second'')),
         (''### - [ ] [T3] third'', ('' '', ''T3'', ''third''))],
      bracket_search = map_of [(''[T1] first'', ''T1'')]\<rparr>"

definition ex_stage1 :: stage_file where
  "ex_stage1 = \<lparr>file_name = ''Stage-01_plan.todos.md'',
     file_lines = Some [''### - [x] [T1] first'', ''note'', ''### - [ ] [T2] second'']\<rparr>"

definition ex_stage2 :: stage_file where
  "ex_stage2 = \<lparr>file_name = ''Stage-02_draft.todos.md'',
     file_lines = Some [''### - [ ] [T3] third'']\<rparr>"

definition ex_dir :: todo_dir where
  "ex_dir = \<lparr>dir_exists = True, dir_is_dir = True, dir_glob = [ex_stage2, ex_stage1]\<rparr>"

definition ex_todo2 :: todo_item where
  "ex_todo2 = \<lparr>todo_id_full = ''T2'', todo_stage_number = 1, todo_title = ''second'',
     meta_lines = [], todo_file_path = ''Stage-01_plan.todos.md''\<rparr>"

definition ex_item2 :: work_item where
  "ex_item2 = \<lparr>id_full = ''T2'', stage_number = 1, title = ''second'',
     file_path = ''Stage-01_plan.todos.md'', todos = [ex_todo2],
     batch_index = None, batch_total = None\<rparr>"

text \<open>The default command line, and a pipeline with the example client.\<close>

definition ex_args :: args where
  "ex_args = \<lparr>poll_interval = 60, issue_max_wait = 36000, issue_batch_size = 1,
     task_max_retries = 3, task_retry_wait = 300, dry_run = False, from_beginning = True\<rparr>"

definition ex_pipeline :: pipeline where
  "ex_pipeline = \<lparr>github = Some ex_gh, args = ex_args\<rparr>"







text \<open>
  An open ticket 7 titled \<open>[T1] first\<close> without assignees, in a tracker that refuses every
  candidate name for ticket 7 and then creates ticket 8 and accepts the first name.
\<close>

definition ex_item1 :: work_item where
  "ex_item1 = \<lparr>id_full = ''T1'', stage_number = 1, title = ''first'',
     file_path = ''Stage-01_plan.todos.md'',
     todos = [\<lparr>todo_id_full = ''T1'', todo_stage_number = 1, todo_title = ''first'',
       meta_lines = [], todo_file_path = ''Stage-01_plan.todos.md''\<rparr>],
     batch_index = None, batch_total = None\<rparr>"

definition w_refused :: world where
  "w_refused = w_script
     [Completed ''FOUND'', Completed ''OPEN'',
      CalledProcessError ''@copilot not found'', CalledProcessError ''copilot not found'',
      CalledProcessError ''Copilot not found'', CalledProcessError ''github-copilot not found'',
      CalledProcessError ''github-copilot[bot] not found'',
      Completed ''https://github.com/owner/repo/issues/8'', Completed '''']
     TimeoutExpired []"

section \<open>Facts about one tracker command\<close>

lemma run_gh_completed:
  assumes "procs w (nprocs w) = Completed out" "1 \<le> retries"
  shows "run_gh cmd retries w = (Inr (strip out), snd (subprocess_run cmd w))"
  using assms unfolding run_gh_def
  by (subst run_gh_from.simps) (simp add: subprocess_run_def)

lemma run_gh_first_ok:
  assumes "procs w (nprocs w) = Completed out"
  shows "run_gh cmd 3 w =
      (Inr (strip out), w\<lparr>nprocs := Suc (nprocs w), trace := trace w @ [Run cmd]\<rparr>)"
    and "run_gh cmd 2 w =
      (Inr (strip out), w\<lparr>nprocs := Suc (nprocs w), trace := trace w @ [Run cmd]\<rparr>)"
  using assms unfolding run_gh_def
  by (subst run_gh_from.simps, simp add: subprocess_run_def)+

lemma run_gh_fatal:
  assumes "attempt \<le> retries" "procs w (nprocs w) = CalledProcessError err"
    "is_fatal_error (stderr_text err)"
  shows "run_gh_from cmd retries attempt w =
     (Inl (RuntimeError ((if attempt = retries then GhFailed else GhFatal) (stderr_text err))),
      snd (subprocess_run cmd w))"
  using assms by (subst run_gh_from.simps) (simp add: subprocess_run_def)

lemma rate_limit_longer:
  assumes "1 \<le> attempt" "\<not> is_rate_limit s'"
  shows "failure_wait attempt s' < min (300 * attempt) 1800"
  using assms
  by (auto simp: failure_wait_def NETWORK_ERROR_BASE_WAIT_def NETWORK_ERROR_MAX_WAIT_def min_def)

lemma rate_limit_longer_timeout:
  assumes "1 \<le> attempt"
  shows "timeout_wait attempt < min (300 * attempt) 1800"
  using assms
  by (auto simp: timeout_wait_def NETWORK_ERROR_BASE_WAIT_def NETWORK_ERROR_MAX_WAIT_def min_def)

lemma run_gh_rate_limit:
  assumes "attempt < retries" "procs w (nprocs w) = CalledProcessError err"
    "\<not> is_fatal_error (stderr_text err)" "is_rate_limit (stderr_text err)"
  shows "run_gh_from cmd retries attempt w =
     run_gh_from cmd retries (Suc attempt)
       (time_sleep (int (min (300 * attempt) 1800)) (snd (subprocess_run cmd w)))"
  using assms by (subst run_gh_from.simps) (simp add: subprocess_run_def failure_wait_def)

lemma run_gh_from_world:
  "procs (snd (run_gh_from cmd retries attempt w)) = procs w \<and>
   nprocs w \<le> nprocs (snd (run_gh_from cmd retries attempt w)) \<and>
   nprocs (snd (run_gh_from cmd retries attempt w)) \<le> nprocs w + (Suc retries - attempt)"
proof (induction cmd retries attempt w rule: run_gh_from.induct)
  case (1 cmd retries attempt w)
  show ?case
    apply (subst (1 2 3) run_gh_from.simps)
    using 1
    apply (auto simp: subprocess_run_def time_sleep_def split: proc_result.splits)
    done
qed

lemma tape_fails_step:
  assumes "\<forall>k out. procs w (nprocs w + k) \<noteq> Completed out"
  shows "\<forall>k out. procs (time_sleep d (snd (subprocess_run cmd w)))
           (nprocs (time_sleep d (snd (subprocess_run cmd w))) + k) \<noteq> Completed out"
proof (intro allI)
  fix k out
  have "procs w (nprocs w + Suc k) \<noteq> Completed out" using assms by blast
  then show "procs (time_sleep d (snd (subprocess_run cmd w)))
           (nprocs (time_sleep d (snd (subprocess_run cmd w))) + k) \<noteq> Completed out"
    by (simp add: subprocess_run_def time_sleep_def)
qed

lemma run_gh_exhaust:
  assumes "\<forall>k out. procs w (nprocs w + k) \<noteq> Completed out"
  shows "\<exists>e. fst (run_gh_from cmd retries attempt w) = Inl e"
  using assms
proof (induction cmd retries attempt w rule: run_gh_from.induct)
  case (1 cmd retries attempt w)
  have h0: "procs w (nprocs w) \<noteq> Completed out" for out
    using 1(3)[rule_format, of 0] by simp
  note hs = tape_fails_step[OF 1(3)]
  show ?case
  proof (cases "retries < attempt")
    case True
    then show ?thesis by (subst run_gh_from.simps) simp
  next
    case False
    show ?thesis
    proof (cases "procs w (nprocs w)")
      case (Completed out)
      then show ?thesis using h0[of out] by simp
    next
      case TimeoutExpired
      have sr: "subprocess_run cmd w = (TimeoutExpired, snd (subprocess_run cmd w))"
        using TimeoutExpired by (simp add: subprocess_run_def)
      show ?thesis
      proof (cases "attempt = retries")
        case True
        then show ?thesis using TimeoutExpired
          by (subst run_gh_from.simps) (simp add: subprocess_run_def)
      next
        case ne: False
        from 1(1)[OF False sr[symmetric] refl ne hs]
        show ?thesis using False ne TimeoutExpired
          by (subst run_gh_from.simps) (simp add: subprocess_run_def)
      qed
    next
      case (CalledProcessError err)
      have sr: "subprocess_run cmd w = (CalledProcessError err, snd (subprocess_run cmd w))"
        using CalledProcessError by (simp add: subprocess_run_def)
      show ?thesis
      proof (cases "attempt = retries \<or> is_fatal_error (stderr_text err)")
        case True
        then show ?thesis using CalledProcessError
          by (subst run_gh_from.simps) (auto simp add: subprocess_run_def)
      next
        case ne: False
        then have a: "attempt \<noteq> retries" and b: "\<not> is_fatal_error (stderr_text err)" by auto
        from 1(2)[OF False sr[symmetric] refl a b hs]
        show ?thesis using False a b CalledProcessError
          by (subst run_gh_from.simps) (simp add: subprocess_run_def)
      qed
    qed
  qed
qed


section \<open>What the calls add to the trace\<close>


lemma extends_refl [simp]: "extends A w w"
  by (simp add: extends_def)

lemma extends_trans: "extends A w w1 \<Longrightarrow> extends A w1 w2 \<Longrightarrow> extends A w w2"
  by (auto simp: extends_def)

lemma extends_mono: "extends A w w' \<Longrightarrow> A \<subseteq> B \<Longrightarrow> extends B w w'"
  by (auto simp: extends_def)

lemma extends_new_events:
  "extends A w w' \<Longrightarrow> trace w' = trace w @ new_events w w' \<and> set (new_events w w') \<subseteq> A"
  by (auto simp: extends_def new_events_def)

lemma new_events_trans:
  "extends A w w1 \<Longrightarrow> extends B w1 w2 \<Longrightarrow> new_events w w2 = new_events w w1 @ new_events w1 w2"
  by (auto simp: extends_def new_events_def)

lemma extends_subprocess_run: "Run cmd \<in> A \<Longrightarrow> extends A w (snd (subprocess_run cmd w))"
  by (simp add: extends_def subprocess_run_def)

lemma extends_time_sleep: "Sleep d \<in> A \<Longrightarrow> extends A w (time_sleep d w)"
  by (simp add: extends_def time_sleep_def)

lemma extends_logger: "Log l \<in> A \<Longrightarrow> extends A w (logger l w)"
  by (simp add: extends_def logger_def)

lemma extends_time_time [simp]: "extends A w (snd (time_time w))"
  by (simp add: extends_def time_time_def)

lemma extends_sleep_after: "extends A w w1 \<Longrightarrow> Sleep d \<in> A \<Longrightarrow> extends A w (time_sleep d w1)"
  by (auto simp: extends_def time_sleep_def)

lemma extends_log_after: "extends A w w1 \<Longrightarrow> Log l \<in> A \<Longrightarrow> extends A w (logger l w1)"
  by (auto simp: extends_def logger_def)

lemma extends_time_after: "extends A w w1 \<Longrightarrow> extends A w (snd (time_time w1))"
  by (auto simp: extends_def time_time_def)

lemma extends_run_gh_from:
  "Run cmd \<in> A \<Longrightarrow> range Sleep \<subseteq> A \<Longrightarrow> extends A w (snd (run_gh_from cmd retries attempt w))"
proof (induction cmd retries attempt w rule: run_gh_from.induct)
  case (1 cmd retries attempt w)
  have s: "extends A w (snd (subprocess_run cmd w))"
    using 1(3) by (rule extends_subprocess_run)
  have sl: "extends A w (time_sleep d (snd (subprocess_run cmd w)))" for d
    using s 1(4) by (auto intro: extends_sleep_after)
  show ?case
  proof (cases "retries < attempt")
    case True
    then show ?thesis by (subst run_gh_from.simps) simp
  next
    case False
    obtain r w1 where sr: "subprocess_run cmd w = (r, w1)" by (cases "subprocess_run cmd w")
    show ?thesis
    proof (cases r)
      case (Completed out)
      then show ?thesis using False sr s by (subst run_gh_from.simps) simp
    next
      case TimeoutExpired
      show ?thesis
      proof (cases "attempt = retries")
        case True
        then show ?thesis using False sr s TimeoutExpired by (subst run_gh_from.simps) simp
      next
        case ne: False
        have "extends A (time_sleep (int (timeout_wait attempt)) w1)
           (snd (run_gh_from cmd retries (Suc attempt) (time_sleep (int (timeout_wait attempt)) w1)))"
          using 1(1)[OF False sr[symmetric] _ ne 1(3,4)] TimeoutExpired by simp
        with sl[of "int (timeout_wait attempt)"] sr
        have "extends A w (snd (run_gh_from cmd retries (Suc attempt) (time_sleep (int (timeout_wait attempt)) w1)))"
          by (auto intro: extends_trans)
        then show ?thesis using False sr ne TimeoutExpired by (subst run_gh_from.simps) simp
      qed
    next
      case (CalledProcessError err)
      show ?thesis
      proof (cases "attempt = retries \<or> is_fatal_error (stderr_text err)")
        case True
        then show ?thesis using False sr s CalledProcessError
          by (subst run_gh_from.simps) auto
      next
        case ne: False
        then have a: "attempt \<noteq> retries" and b: "\<not> is_fatal_error (stderr_text err)" by auto
        let ?w = "time_sleep (int (failure_wait attempt (stderr_text err))) w1"
        have "extends A ?w (snd (run_gh_from cmd retries (Suc attempt) ?w))"
          using 1(2)[OF False sr[symmetric] _ a b 1(3,4)] CalledProcessError by simp
        with sl[of "int (failure_wait attempt (stderr_text err))"] sr
        have "extends A w (snd (run_gh_from cmd retries (Suc attempt) ?w))"
          by (auto intro: extends_trans)
        then show ?thesis using False sr a b CalledProcessError
          by (subst run_gh_from.simps) simp
      qed
    qed
  qed
qed

lemma extends_run_gh:
  "Run cmd \<in> A \<Longrightarrow> range Sleep \<subseteq> A \<Longrightarrow> extends A w (snd (run_gh cmd retries w))"
  by (simp add: run_gh_def extends_run_gh_from)


lemma gh_events_sleep [simp]: "range Sleep \<subseteq> gh_events C" "Sleep d \<in> gh_events C"
  by (auto simp: gh_events_def)

lemma gh_events_run [simp]: "Run c \<in> gh_events C \<longleftrightarrow> c \<in> C"
  by (auto simp: gh_events_def)

lemma gh_events_log [simp]: "Log l \<notin> gh_events C"
  by (auto simp: gh_events_def)

lemma gh_events_mono: "C \<subseteq> D \<Longrightarrow> gh_events C \<subseteq> gh_events D"
  by (auto simp: gh_events_def)

lemma extends_gh: "c \<in> C \<Longrightarrow> extends (gh_events C) w (snd (run_gh c retries w))"
  by (rule extends_run_gh) simp_all

lemma extends_gh_in:
  "c \<in> C \<Longrightarrow> gh_events C \<subseteq> A \<Longrightarrow> extends A w (snd (run_gh c retries w))"
  by (rule extends_mono[OF extends_gh])

lemma extends_api_request:
  "Api m path hs \<in> C \<Longrightarrow> extends (gh_events C) w (snd (api_request gh m path hs silent w))"
  using extends_gh[of "Api m path hs" C w 3]
  by (auto simp: api_request_def split: prod.splits sum.splits option.splits)

lemma extends_create_issue:
  "IssueCreate t \<in> C \<Longrightarrow> extends (gh_events C) w (snd (create_issue gh t w))"
  using extends_gh[of "IssueCreate t" C w 3]
  by (auto simp: create_issue_def split: prod.splits sum.splits option.splits)

lemma extends_add_assignees_loop:
  "IssueAddAssignee n ` set names \<subseteq> C \<Longrightarrow>
   extends (gh_events C) w (snd (add_assignees_loop n k names le w))"
proof (induction names arbitrary: le w)
  case Nil
  then show ?case by (simp split: option.splits)
next
  case (Cons a names)
  have a: "extends (gh_events C) w (snd (run_gh (IssueAddAssignee n a) 3 w))"
    using Cons.prems by (intro extends_gh) auto
  have r: "extends (gh_events C) w1 (snd (add_assignees_loop n k names l w1))" for l w1
    using Cons.prems by (intro Cons.IH) auto
  show ?case
    using a r by (auto split: prod.splits sum.splits intro: extends_trans)
qed

lemma extends_add_assignees:
  "range (IssueAddAssignee n) \<subseteq> C \<Longrightarrow>
   extends (gh_events C) w (snd (add_assignees gh n names w))"
  unfolding add_assignees_def by (rule extends_add_assignees_loop) auto

lemma extends_remove_assignees:
  "range (IssueRemoveAssignee n) \<subseteq> C \<Longrightarrow>
   extends (gh_events C) w (remove_assignees gh n names w)"
proof (induction names arbitrary: w)
  case Nil
  then show ?case by simp
next
  case (Cons a names)
  have a: "extends (gh_events C) w (snd (run_gh (IssueRemoveAssignee n a) 3 w))"
    using Cons.prems by (intro extends_gh) auto
  show ?case using a Cons.IH[OF Cons.prems] by (auto intro: extends_trans)
qed

lemma extends_comment_issue:
  "IssueComment n \<in> C \<Longrightarrow> extends (gh_events C) w (snd (comment_issue gh n w))"
  using extends_gh[of "IssueComment n" C w 3]
  by (auto simp: comment_issue_def split: prod.splits sum.splits)

lemma extends_get_issue:
  "IssueView n \<in> C \<Longrightarrow> extends (gh_events C) w (snd (get_issue gh n w))"
  using extends_gh[of "IssueView n" C w 3]
  by (auto simp: get_issue_def split: prod.splits sum.splits option.splits)

lemma extends_get_pull:
  "PrView n \<in> C \<Longrightarrow> extends (gh_events C) w (snd (get_pull gh n w))"
  using extends_gh[of "PrView n" C w 3]
  by (auto simp: get_pull_def split: prod.splits sum.splits option.splits)

lemma extends_merge_pull:
  "PrMerge n \<in> C \<Longrightarrow> extends (gh_events C) w (snd (merge_pull gh n w))"
  using extends_gh[of "PrMerge n" C w 3]
  by (auto simp: merge_pull_def split: prod.splits sum.splits)

lemma extends_close_pr:
  "PrClose n b \<in> C \<Longrightarrow> extends (gh_events C) w (snd (close_pr gh n b w))"
  using extends_gh[of "PrClose n b" C w 3]
  by (auto simp: close_pr_def split: prod.splits sum.splits)

lemma extends_mark_pr_ready:
  "PrReady n \<in> C \<Longrightarrow> extends (gh_events C) w (mark_pr_ready gh n w)"
  using extends_gh[of "PrReady n" C w 3]
  by (auto simp: mark_pr_ready_def)

lemma extends_list_closed_issues:
  "IssueListClosed n \<in> C \<Longrightarrow> extends (gh_events C) w (snd (list_closed_issues gh n w))"
  using extends_gh[of "IssueListClosed n" C w 3]
  by (auto simp: list_closed_issues_def split: prod.splits sum.splits option.splits json.splits)

lemma extends_find_issue_by_todo:
  "IssueListOpenSearch (bracketed t) \<in> C \<Longrightarrow>
   extends (gh_events C) w (snd (find_issue_by_todo gh t w))"
  using extends_gh[of "IssueListOpenSearch (bracketed t)" C w 2]
  by (auto simp: find_issue_by_todo_def split: prod.splits sum.splits option.splits json.splits)

lemma extends_latest_pr:
  "timeline_cmd (JInt n) \<in> C \<Longrightarrow>
   extends (gh_events C) w (snd (latest_pr_from_timeline gh n w))"
  using extends_api_request[of "''GET''" "IssueTimeline (JInt n)" "[TIMELINE_ACCEPT_HEADER]" C w gh True]
  by (auto simp: latest_pr_from_timeline_def timeline_cmd_def split: prod.splits sum.splits json.splits)

lemma extends_check_signal:
  "timeline_cmd pr \<in> C \<Longrightarrow>
   extends (gh_events C) w (snd (check_copilot_signal gh pr w))"
  using extends_api_request[of "''GET''" "IssueTimeline pr" "[TIMELINE_ACCEPT_HEADER]" C w gh True]
  by (auto simp: check_copilot_signal_def timeline_cmd_def split: prod.splits sum.splits json.splits)


lemma logs_append_event [simp]:
  "logs (logger l w) = logs w @ [l]"
  "logs (time_sleep d w) = logs w"
  "logs (snd (time_time w)) = logs w"
  "logs (snd (subprocess_run c w)) = logs w"
  by (simp_all add: logs_def logger_def time_sleep_def time_time_def subprocess_run_def)

lemma extends_gh_logs: "extends (gh_events C) w w' \<Longrightarrow> logs w' = logs w"
proof -
  assume "extends (gh_events C) w w'"
  then obtain evs where e: "trace w' = trace w @ evs" "set evs \<subseteq> gh_events C"
    by (auto simp: extends_def)
  have "concat (map log_of evs) = []"
    using e(2) by (induction evs) (auto simp: gh_events_def)
  then show ?thesis using e(1) by (simp add: logs_def)
qed

lemma logs_run_gh [simp]: "logs (snd (run_gh c r w)) = logs w"
  by (rule extends_gh_logs[OF extends_gh[of c "{c}"]]) simp

lemma logs_api_request [simp]: "logs (snd (api_request gh m p hs sf w)) = logs w"
  by (rule extends_gh_logs[OF extends_api_request[of m p hs "{Api m p hs}"]]) simp

lemma logs_create_issue [simp]: "logs (snd (create_issue gh t w)) = logs w"
  by (rule extends_gh_logs[OF extends_create_issue[of t "{IssueCreate t}"]]) simp

lemma logs_add_assignees [simp]: "logs (snd (add_assignees gh n names w)) = logs w"
  by (rule extends_gh_logs[OF extends_add_assignees[of n UNIV]]) simp

lemma logs_remove_assignees [simp]: "logs (remove_assignees gh n names w) = logs w"
  by (rule extends_gh_logs[OF extends_remove_assignees[of n UNIV]]) simp

lemma logs_comment_issue [simp]: "logs (snd (comment_issue gh n w)) = logs w"
  by (rule extends_gh_logs[OF extends_comment_issue[of n UNIV]]) simp

lemma logs_get_issue [simp]: "logs (snd (get_issue gh n w)) = logs w"
  by (rule extends_gh_logs[OF extends_get_issue[of n UNIV]]) simp

lemma logs_get_pull [simp]: "logs (snd (get_pull gh n w)) = logs w"
  by (rule extends_gh_logs[OF extends_get_pull[of n UNIV]]) simp

lemma logs_merge_pull [simp]: "logs (snd (merge_pull gh n w)) = logs w"
  by (rule extends_gh_logs[OF extends_merge_pull[of n UNIV]]) simp

lemma logs_close_pr [simp]: "logs (snd (close_pr gh n b w)) = logs w"
  by (rule extends_gh_logs[OF extends_close_pr[of n b UNIV]]) simp

lemma logs_mark_pr_ready [simp]: "logs (mark_pr_ready gh n w) = logs w"
  by (rule extends_gh_logs[OF extends_mark_pr_ready[of n UNIV]]) simp

lemma logs_list_closed_issues [simp]: "logs (snd (list_closed_issues gh n w)) = logs w"
  by (rule extends_gh_logs[OF extends_list_closed_issues[of n UNIV]]) simp

lemma logs_find_issue_by_todo [simp]: "logs (snd (find_issue_by_todo gh t w)) = logs w"
proof (cases "t = [] \<or> strip t = []")
  case True
  then show ?thesis by (auto simp: find_issue_by_todo_def)
next
  case False
  show ?thesis
    by (rule extends_gh_logs[OF extends_find_issue_by_todo[of t UNIV]]) simp
qed

lemma logs_latest_pr [simp]: "logs (snd (latest_pr_from_timeline gh n w)) = logs w"
  by (rule extends_gh_logs[OF extends_latest_pr[of n UNIV]]) simp

lemma logs_check_signal [simp]: "logs (snd (check_copilot_signal gh pr w)) = logs w"
  by (rule extends_gh_logs[OF extends_check_signal[of pr UNIV]]) simp

lemma logs_annotate_and_close [simp]: "logs (annotate_and_close gh pr w) = logs w"
  by (simp add: annotate_and_close_def split_beta split: sum.splits)

lemma logs_merged_after_failure [simp]: "logs (snd (merged_after_failure gh pr w)) = logs w"
  by (simp add: merged_after_failure_def split_beta split: sum.splits)

text \<open>A reset adds at most the line that it skipped a closed ticket.\<close>

lemma logs_reset_issue:
  "logs (snd (reset_issue gh n w)) = logs w \<or>
   logs (snd (reset_issue gh n w)) = logs w @ [SkipResetClosed n]"
  by (simp add: reset_issue_def split_beta split: sum.splits)

lemma resets_of_simps [simp]:
  "resets_of [] = []"
  "resets_of (xs @ ys) = resets_of xs @ resets_of ys"
  "resets_of (l # ls) = reset_of l @ resets_of ls"
  by (simp_all add: resets_of_def)

section \<open>The monitoring loop, pass by pass\<close>

subsection \<open>The exceptions of the tracker calls are not budget messages\<close>


lemma run_gh_from_not_limit:
  "fst (run_gh_from cmd retries attempt w) = Inl e \<Longrightarrow> limit_issue e = None"
proof (induction cmd retries attempt w rule: run_gh_from.induct)
  case (1 cmd retries attempt w)
  show ?case
  proof (cases "retries < attempt")
    case True
    with 1(3) show ?thesis by (subst (asm) run_gh_from.simps) auto
  next
    case False
    obtain r w1 where sr: "subprocess_run cmd w = (r, w1)" by (cases "subprocess_run cmd w")
    show ?thesis
    proof (cases r)
      case (Completed out)
      with 1(3) False sr show ?thesis by (subst (asm) run_gh_from.simps) auto
    next
      case TimeoutExpired
      show ?thesis
      proof (cases "attempt = retries")
        case True
        with 1(3) False sr TimeoutExpired show ?thesis
          by (subst (asm) run_gh_from.simps) auto
      next
        case ne: False
        have "fst (run_gh_from cmd retries (Suc attempt) (time_sleep (int (timeout_wait attempt)) w1)) = Inl e"
          using 1(3) False sr TimeoutExpired ne by (subst (asm) run_gh_from.simps) simp
        with 1(1)[OF False sr[symmetric] _ ne] TimeoutExpired show ?thesis by simp
      qed
    next
      case (CalledProcessError err)
      show ?thesis
      proof (cases "attempt = retries \<or> is_fatal_error (stderr_text err)")
        case True
        with 1(3) False sr CalledProcessError show ?thesis
          by (subst (asm) run_gh_from.simps) (auto split: if_splits)
      next
        case ne: False
        then have a: "attempt \<noteq> retries" and b: "\<not> is_fatal_error (stderr_text err)" by auto
        have "fst (run_gh_from cmd retries (Suc attempt)
            (time_sleep (int (failure_wait attempt (stderr_text err))) w1)) = Inl e"
          using 1(3) False sr CalledProcessError a b by (subst (asm) run_gh_from.simps) simp
        with 1(2)[OF False sr[symmetric] _ a b] CalledProcessError show ?thesis by simp
      qed
    qed
  qed
qed

lemma run_gh_not_limit: "fst (run_gh cmd retries w) = Inl e \<Longrightarrow> limit_issue e = None"
  unfolding run_gh_def by (rule run_gh_from_not_limit)

lemma obj_get_not_limit: "obj_get d k dflt = Inl e \<Longrightarrow> limit_issue e = None"
  by (auto simp: obj_get_def split: json.splits)

lemma get_issue_not_limit: "fst (get_issue gh n w) = Inl e \<Longrightarrow> limit_issue e = None"
  by (auto simp: get_issue_def split_beta dest: run_gh_not_limit split: sum.splits if_splits option.splits)

lemma collect_logins_not_limit: "collect_logins xs = Inl e \<Longrightarrow> limit_issue e = None"
  by (induction xs arbitrary: e)
     (auto simp: assignee_login_def dest: obj_get_not_limit split: sum.splits if_splits json.splits)

lemma assignee_logins_not_limit: "assignee_logins d = Inl e \<Longrightarrow> limit_issue e = None"
  by (auto simp: assignee_logins_def py_iter_def dest: obj_get_not_limit collect_logins_not_limit
      split: sum.splits json.splits)

lemma add_assignees_loop_not_limit:
  "fst (add_assignees_loop n k names le w) = Inl e \<Longrightarrow> limit_issue e = None"
  by (induction names arbitrary: le w)
     (auto simp: split_beta split: option.splits sum.splits)

lemma add_assignees_not_limit:
  "fst (add_assignees gh n names w) = Inl e \<Longrightarrow> limit_issue e = None"
  unfolding add_assignees_def by (rule add_assignees_loop_not_limit)

lemma reset_issue_not_limit: "fst (reset_issue gh n w) = Inl e \<Longrightarrow> limit_issue e = None"
  by (auto simp: reset_issue_def split_beta
      dest: get_issue_not_limit obj_get_not_limit assignee_logins_not_limit add_assignees_not_limit
      split: sum.splits if_splits)

lemma scan_signal_not_limit: "scan_signal evs = Inl e \<Longrightarrow> limit_issue e = None"
  by (induction evs) (auto dest: obj_get_not_limit split: sum.splits if_splits)

lemma check_signal_not_limit:
  "fst (check_copilot_signal gh pr w) = Inl e \<Longrightarrow> limit_issue e = None"
  by (auto simp: check_copilot_signal_def api_request_def split_beta
      dest: scan_signal_not_limit run_gh_not_limit
      split: sum.splits if_splits json.splits option.splits)

subsection \<open>The branches of one pass\<close>


lemma heartbeat_path:
  assumes "heartbeat_and_sleep a s w = (r, w')"
  shows "logs w' = logs w \<and> path_ok n s r []"
  using assms
  by (auto simp: heartbeat_and_sleep_def split_beta path_ok_def tick_ok_def)

lemma reset_and_continue_path:
  assumes "reset_and_continue gh n clear s w = (r, w')"
  shows "\<exists>ls. logs w' = logs w @ ls \<and> (ls = [] \<or> ls = [SkipResetClosed n]) \<and>
     (case r of
        Continue s' \<Rightarrow> reset_count s' = reset_count s + 1 \<and>
           (current_pr s' = None \<or> current_pr s' = current_pr s)
      | Return \<Rightarrow> False
      | Raise e \<Rightarrow> limit_issue e = None)"
proof (cases "fst (reset_issue gh n w)")
  case (Inl e)
  then have "r = Raise e" "w' = snd (reset_issue gh n w)"
    using assms by (auto simp: reset_and_continue_def split_beta)
  then show ?thesis
    using logs_reset_issue[of gh n w] reset_issue_not_limit[OF Inl] by auto
next
  case (Inr u)
  then have "\<exists>s'. r = Continue s' \<and> reset_count s' = reset_count s + 1 \<and>
           (current_pr s' = None \<or> current_pr s' = current_pr s)"
    and "logs w' = logs (snd (reset_issue gh n w))"
    using assms by (auto simp: reset_and_continue_def split_beta)
  then show ?thesis
    using logs_reset_issue[of gh n w] by auto
qed

text \<open>A reset site: the budget check, the announcement, then the reset.\<close>

lemma reset_site_path:
  assumes r: "reset_and_continue gh n clear s w1 = (r, w')"
    and w1: "logs w1 = logs w @ [ResetTriggered t (reset_count s + 1)]"
    and c: "reset_count s < DEFAULT_MAX_PR_RESETS"
  shows "\<exists>ls. logs w' = logs w @ ls \<and> path_ok n s r ls \<and> SignalDetected \<notin> set ls \<and>
     resets_of ls = [(t, reset_count s + 1)] \<and> (\<forall>e. r = Raise e \<longrightarrow> limit_issue e = None)"
proof -
  from reset_and_continue_path[OF r] obtain ls where
    ls: "logs w' = logs w1 @ ls" "ls = [] \<or> ls = [SkipResetClosed n]"
    and res: "case r of
        Continue s' \<Rightarrow> reset_count s' = reset_count s + 1 \<and>
           (current_pr s' = None \<or> current_pr s' = current_pr s)
      | Return \<Rightarrow> False
      | Raise e \<Rightarrow> limit_issue e = None" by blast
  have "logs w' = logs w @ (ResetTriggered t (reset_count s + 1) # ls)"
    using ls(1) w1 by simp
  moreover have "path_ok n s r (ResetTriggered t (reset_count s + 1) # ls)"
    using ls(2) res c by (cases r) (auto simp: path_ok_def tick_ok_def)
  moreover have "SignalDetected \<notin> set (ResetTriggered t (reset_count s + 1) # ls)"
    using ls(2) by auto
  moreover have "resets_of (ResetTriggered t (reset_count s + 1) # ls) = [(t, reset_count s + 1)]"
    using ls(2) by auto
  moreover have "\<forall>e. r = Raise e \<longrightarrow> limit_issue e = None"
    using res by (cases r) auto
  ultimately show ?thesis by blast
qed

lemma limit_raise_path:
  assumes "DEFAULT_MAX_PR_RESETS \<le> reset_count s" "limit_issue e = Some n"
    "e \<noteq> RuntimeError (PrTimeoutResetLimit n)"
  shows "path_ok n s (Raise e) []"
  using assms by (auto simp: path_ok_def tick_ok_def)

lemma tick_no_pr_path:
  assumes "tick_no_pr a gh n s w = (r, w')"
  shows "\<exists>ls. logs w' = logs w @ ls \<and> path_ok n s r ls \<and> SignalDetected \<notin> set ls"
proof -
  let ?w1 = "snd (time_time w)"
  let ?t = "fst (time_time w)"
  show ?thesis
  proof (cases "?t - wait_start_time s > real_of_int PR_WAIT_TIMEOUT")
    case False
    then have "heartbeat_and_sleep a s ?w1 = (r, w')"
      using assms by (simp add: tick_no_pr_def split_beta)
    from heartbeat_path[OF this, of n] show ?thesis by auto
  next
    case True
    show ?thesis
    proof (cases "reset_count s \<ge> DEFAULT_MAX_PR_RESETS")
      case c: True
      then have "r = Raise (RuntimeError (WaitPrResetLimit n))" "w' = ?w1"
        using assms True by (auto simp: tick_no_pr_def split_beta)
      then show ?thesis using limit_raise_path[OF c, of "RuntimeError (WaitPrResetLimit n)" n]
        by auto
    next
      case c: False
      then have r: "reset_and_continue gh n False s
          (logger (ResetTriggered NoPrTimeout (reset_count s + 1)) ?w1) = (r, w')"
        using assms True by (auto simp: tick_no_pr_def split_beta)
      have l: "logs (logger (ResetTriggered NoPrTimeout (reset_count s + 1)) ?w1) =
          logs w @ [ResetTriggered NoPrTimeout (reset_count s + 1)]" by simp
      from reset_site_path[OF r l] c show ?thesis by auto
    qed
  qed
qed


lemma signal_path_ok:
  assumes "signal_path gh n pr s w = (r, w')"
  shows "\<exists>ls. logs w' = logs w @ ls \<and> path_ok n s r ls \<and> SignalDetected \<notin> set ls \<and>
     (\<forall>k. (PrTimeout, k) \<notin> set (resets_of ls)) \<and>
     r \<noteq> Raise (RuntimeError (PrTimeoutResetLimit n))"
proof -
  let ?w0 = "time_sleep PR_READY_WAIT (mark_pr_ready gh pr w)"
  let ?w1 = "snd (merge_pull gh pr ?w0)"
  have l1: "logs ?w1 = logs w" by simp
  show ?thesis
  proof (cases "fst (merge_pull gh pr ?w0)")
    case (Inr u)
    then have "r = Return" "w' = ?w1"
      using assms by (auto simp: signal_path_def split_beta)
    then show ?thesis using l1 by (auto simp: path_ok_def tick_ok_def)
  next
    case (Inl e)
    let ?w2 = "snd (merged_after_failure gh pr ?w1)"
    have l2: "logs ?w2 = logs w" by simp
    show ?thesis
    proof (cases "fst (merged_after_failure gh pr ?w1)")
      case True
      then have "r = Return" "w' = ?w2"
        using assms Inl by (auto simp: signal_path_def split_beta)
      then show ?thesis using l2 by (auto simp: path_ok_def tick_ok_def)
    next
      case False
      show ?thesis
      proof (cases "reset_count s \<ge> DEFAULT_MAX_PR_RESETS")
        case c: True
        then have "r = Raise (RuntimeError (MergeFailedResetLimit n e))" "w' = ?w2"
          using assms Inl False by (auto simp: signal_path_def split_beta)
        then show ?thesis
          using l2 limit_raise_path[OF c, of "RuntimeError (MergeFailedResetLimit n e)" n]
          by auto
      next
        case c: False
        let ?w3 = "annotate_and_close gh pr
            (logger (ResetTriggered MergeFailed (reset_count s + 1)) ?w2)"
        have r: "reset_and_continue gh n True s ?w3 = (r, w')"
          using assms Inl False c by (auto simp: signal_path_def split_beta)
        have l3: "logs ?w3 = logs w @ [ResetTriggered MergeFailed (reset_count s + 1)]"
          by simp
        from reset_site_path[OF r l3] c obtain ls where
          "logs w' = logs w @ ls" "path_ok n s r ls" "SignalDetected \<notin> set ls"
          "resets_of ls = [(MergeFailed, reset_count s + 1)]"
          "\<forall>e. r = Raise e \<longrightarrow> limit_issue e = None" by auto
        then show ?thesis by (intro exI[of _ ls]) auto
      qed
    qed
  qed
qed

lemma timeout_path_ok:
  assumes "timeout_path a gh n pr s w = (r, w')"
  shows "\<exists>ls. logs w' = logs w @ ls \<and> path_ok n s r ls \<and> SignalDetected \<notin> set ls"
proof (cases "pr_create_time s")
  case None
  then have "heartbeat_and_sleep a s w = (r, w')"
    using assms by (simp add: timeout_path_def)
  from heartbeat_path[OF this, of n] show ?thesis by auto
next
  case (Some created)
  show ?thesis
  proof (cases "created = 0")
    case True
    then have "heartbeat_and_sleep a s w = (r, w')"
      using assms Some by (simp add: timeout_path_def)
    from heartbeat_path[OF this, of n] show ?thesis by auto
  next
    case nz: False
    let ?w1 = "snd (time_time w)"
    show ?thesis
    proof (cases "fst (time_time w) - created > real_of_int PR_TIMEOUT")
      case False
      then have "heartbeat_and_sleep a s ?w1 = (r, w')"
        using assms Some nz by (simp add: timeout_path_def split_beta)
      from heartbeat_path[OF this, of n] show ?thesis by auto
    next
      case True
      show ?thesis
      proof (cases "reset_count s \<ge> DEFAULT_MAX_PR_RESETS")
        case c: True
        then have "r = Raise (RuntimeError (PrTimeoutResetLimit n))" "w' = ?w1"
          using assms Some nz True by (auto simp: timeout_path_def split_beta)
        then show ?thesis using c by (auto simp: path_ok_def tick_ok_def)
      next
        case c: False
        let ?w3 = "annotate_and_close gh pr
            (logger (ResetTriggered PrTimeout (reset_count s + 1)) ?w1)"
        have r: "reset_and_continue gh n True s ?w3 = (r, w')"
          using assms Some nz True c by (auto simp: timeout_path_def split_beta)
        have l3: "logs ?w3 = logs w @ [ResetTriggered PrTimeout (reset_count s + 1)]"
          by simp
        from reset_site_path[OF r l3] c show ?thesis by auto
      qed
    qed
  qed
qed

lemma path_ok_after_signal:
  assumes "path_ok n s r ls" "SignalDetected \<notin> set ls"
    "\<forall>k. (PrTimeout, k) \<notin> set (resets_of ls)"
    "r \<noteq> Raise (RuntimeError (PrTimeoutResetLimit n))"
  shows "path_ok n s r (SignalDetected # ls)"
  using assms by (cases r) (auto simp: path_ok_def tick_ok_def)

lemma tick_open_pr_path:
  assumes "tick_open_pr a gh n pr_num pr s w = (r, w')"
  shows "\<exists>ls. logs w' = logs w @ ls \<and> path_ok n s r ls"
proof (cases "obj_get pr ''merged_at'' JNull")
  case (Inl e)
  then have "r = Raise e" "w' = w" using assms by (auto simp: tick_open_pr_def)
  then show ?thesis using obj_get_not_limit[OF Inl] by (auto simp: path_ok_def tick_ok_def)
next
  case m: (Inr merged_at)
  show ?thesis
  proof (cases "truthy merged_at")
    case True
    then have "r = Return" "w' = w" using assms m by (auto simp: tick_open_pr_def)
    then show ?thesis by (auto simp: path_ok_def tick_ok_def)
  next
    case nm: False
    show ?thesis
    proof (cases "obj_get pr ''state'' JNull")
      case (Inl e)
      then have "r = Raise e" "w' = w" using assms m nm by (auto simp: tick_open_pr_def)
      then show ?thesis using obj_get_not_limit[OF Inl] by (auto simp: path_ok_def tick_ok_def)
    next
      case st: (Inr state)
      show ?thesis
      proof (cases "state = JStr ''closed''")
        case True
        show ?thesis
        proof (cases "reset_count s \<ge> DEFAULT_MAX_PR_RESETS")
          case c: True
          then have "r = Raise (RuntimeError (PrClosedResetLimit n))" "w' = w"
            using assms m nm st True by (auto simp: tick_open_pr_def)
          then show ?thesis
            using limit_raise_path[OF c, of "RuntimeError (PrClosedResetLimit n)" n] by auto
        next
          case c: False
          then have r: "reset_and_continue gh n True s
              (logger (ResetTriggered PrClosed (reset_count s + 1)) w) = (r, w')"
            using assms m nm st True by (auto simp: tick_open_pr_def)
          have l: "logs (logger (ResetTriggered PrClosed (reset_count s + 1)) w) =
              logs w @ [ResetTriggered PrClosed (reset_count s + 1)]" by simp
          from reset_site_path[OF r l] c show ?thesis by auto
        qed
      next
        case nc: False
        let ?w1 = "snd (check_copilot_signal gh pr_num w)"
        have l1: "logs ?w1 = logs w" by simp
        show ?thesis
        proof (cases "fst (check_copilot_signal gh pr_num w)")
          case (Inl e)
          then have "r = Raise e" "w' = ?w1"
            using assms m nm st nc by (auto simp: tick_open_pr_def split_beta)
          then show ?thesis
            using check_signal_not_limit[OF Inl] l1 by (auto simp: path_ok_def tick_ok_def)
        next
          case (Inr sig)
          show ?thesis
          proof (cases sig)
            case True
            then have "signal_path gh n pr_num s (logger SignalDetected ?w1) = (r, w')"
              using assms m nm st nc Inr by (auto simp: tick_open_pr_def split_beta)
            from signal_path_ok[OF this] obtain ls where
              ls: "logs w' = logs w @ SignalDetected # ls" "path_ok n s r ls"
                "SignalDetected \<notin> set ls" "\<forall>k. (PrTimeout, k) \<notin> set (resets_of ls)"
                "r \<noteq> Raise (RuntimeError (PrTimeoutResetLimit n))" by auto
            from path_ok_after_signal[OF ls(2-5)] ls(1) show ?thesis by blast
          next
            case False
            then have "timeout_path a gh n pr_num s ?w1 = (r, w')"
              using assms m nm st nc Inr by (auto simp: tick_open_pr_def split_beta)
            from timeout_path_ok[OF this] l1 show ?thesis by auto
          qed
        qed
      qed
    qed
  qed
qed


lemma pass_ok_of_path:
  assumes p: "path_ok n s1 r ls"
    and s1: "reset_count s1 = reset_count s"
    and pre: "pre = [] \<and> current_pr s1 = current_pr s \<or> (\<exists>pr. pre = [DetectedPr pr])"
  shows "pass_ok n s r (pre @ ls)"
proof -
  have r: "resets_of (pre @ ls) = resets_of ls" using pre by auto
  have sg: "SignalDetected \<in> set (pre @ ls) \<longleftrightarrow> SignalDetected \<in> set ls" using pre by auto
  have c: "IssueClosedInfo n \<notin> set (pre @ ls)" using p pre by (auto simp: path_ok_def)
  have t: "tick_ok n (reset_count s) r (pre @ ls)"
    using p s1 unfolding path_ok_def tick_ok_def r sg by (cases r) simp_all
  show ?thesis
    using t c p pre s1 by (cases r) (auto simp: pass_ok_def path_ok_def)
qed

lemma tick_pr_pass:
  assumes "tick_pr a gh n pr_num s w = (r, w')"
  shows "\<exists>ls. logs w' = logs w @ ls \<and> pass_ok n s r ls"
proof -
  obtain s1 w1 where tr: "track_pr pr_num s w = (s1, w1)" by (cases "track_pr pr_num s w")
  then have s1: "reset_count s1 = reset_count s"
    by (auto simp: track_pr_def split_beta split: if_splits)
  from tr obtain pre where pre: "logs w1 = logs w @ pre"
    "pre = [] \<and> current_pr s1 = current_pr s \<or> (\<exists>pr. pre = [DetectedPr pr])"
    by (auto simp: track_pr_def split_beta split: if_splits)
  let ?w2 = "snd (get_pull gh pr_num w1)"
  have l2: "logs ?w2 = logs w @ pre" using pre by simp
  show ?thesis
  proof (cases "fst (get_pull gh pr_num w1)")
    case (Inl e)
    then have r: "r = Continue s1" "w' = time_sleep RETRY_SLEEP_SHORT ?w2"
      using assms tr by (auto simp: tick_pr_def split_beta)
    have "path_ok n s1 r []" using r by (simp add: path_ok_def tick_ok_def)
    from pass_ok_of_path[OF this s1 pre(2)] r l2 show ?thesis by auto
  next
    case (Inr pr)
    then have "tick_open_pr a gh n pr_num pr s1 ?w2 = (r, w')"
      using assms tr by (auto simp: tick_pr_def split_beta)
    from tick_open_pr_path[OF this] obtain ls where
      ls: "logs w' = logs ?w2 @ ls" "path_ok n s1 r ls" by blast
    from pass_ok_of_path[OF ls(2) s1 pre(2)] ls(1) l2 show ?thesis by auto
  qed
qed

lemma pass_ok_quiet_continue: "pass_ok n s (Continue s) []"
  by (simp add: pass_ok_def tick_ok_def)

lemma pass_ok_of_path_same: "path_ok n s r ls \<Longrightarrow> pass_ok n s r ls"
  using pass_ok_of_path[of n s r ls s "[]"] by simp

text \<open>One pass of the monitoring loop.\<close>

lemma tick_pass:
  assumes "tick a gh n s w = (r, w')"
  shows "\<exists>ls. logs w' = logs w @ ls \<and> pass_ok n s r ls"
proof -
  let ?w0 = "snd (time_time w)"
  show ?thesis
  proof (cases "fst (time_time w) - issue_start_time s \<ge> real_of_int (issue_max_wait a)")
    case True
    then have "r = Raise (RuntimeError (IssueTotalTimeout n))" "w' = ?w0"
      using assms by (auto simp: tick_def split_beta)
    then show ?thesis by (auto simp: pass_ok_def tick_ok_def)
  next
    case nt: False
    let ?w1 = "snd (get_issue gh n ?w0)"
    have l1: "logs ?w1 = logs w" by simp
    have quiet: ?thesis if "r = Continue s" "w' = time_sleep RETRY_SLEEP_SHORT ?w1"
      using that pass_ok_quiet_continue[of n s] l1 by auto
    show ?thesis
    proof (cases "fst (get_issue gh n ?w0)")
      case (Inl e)
      then have "r = Continue s" "w' = time_sleep RETRY_SLEEP_SHORT ?w1"
        using assms nt by (auto simp: tick_def split_beta)
      then show ?thesis by (rule quiet)
    next
      case d: (Inr issue_data)
      show ?thesis
      proof (cases "obj_get issue_data ''state'' JNull")
        case (Inl e)
        then have "r = Continue s" "w' = time_sleep RETRY_SLEEP_SHORT ?w1"
          using assms nt d by (auto simp: tick_def split_beta)
        then show ?thesis by (rule quiet)
      next
        case st: (Inr issue_state)
        show ?thesis
        proof (cases "issue_state = JStr ''closed''")
          case True
          then have r: "r = Return"
            "w' = (if no_current_pr s then logger (IssueClosedNoPrWarning n) else (\<lambda>x. x))
                    (logger (IssueClosedInfo n) ?w1)"
            using assms nt d st by (auto simp: tick_def split_beta)
          have "logs w' = logs w @
              (if no_current_pr s then [IssueClosedInfo n, IssueClosedNoPrWarning n]
               else [IssueClosedInfo n])"
            using r(2) l1 by simp
          moreover have "pass_ok n s Return
              (if no_current_pr s then [IssueClosedInfo n, IssueClosedNoPrWarning n]
               else [IssueClosedInfo n])"
            by (auto simp: pass_ok_def tick_ok_def no_current_pr_def)
          ultimately show ?thesis using r(1) by blast
        next
          case nc: False
          let ?w2 = "snd (latest_pr_from_timeline gh n ?w1)"
          have l2: "logs ?w2 = logs w" by simp
          show ?thesis
          proof (cases "fst (latest_pr_from_timeline gh n ?w1)")
            case (Inl e)
            then have "r = Continue s" "w' = time_sleep RETRY_SLEEP_SHORT ?w2"
              using assms nt d st nc by (auto simp: tick_def split_beta)
            then show ?thesis using pass_ok_quiet_continue[of n s] l2 by auto
          next
            case (Inr pr_num)
            show ?thesis
            proof (cases "truthy pr_num")
              case False
              then have "tick_no_pr a gh n s ?w2 = (r, w')"
                using assms nt d st nc Inr by (auto simp: tick_def split_beta)
              from tick_no_pr_path[OF this] l2 pass_ok_of_path_same show ?thesis by auto
            next
              case True
              then have "tick_pr a gh n pr_num s ?w2 = (r, w')"
                using assms nt d st nc Inr by (auto simp: tick_def split_beta)
              from tick_pr_pass[OF this] l2 show ?thesis by auto
            qed
          qed
        qed
      qed
    qed
  qed
qed

subsection \<open>The loop\<close>




lemma wm_loop_closed:
  assumes "wm_loop fuel a gh n s w = (r, w')"
  shows "\<exists>ls. logs w' = logs w @ ls \<and>
     (IssueClosedInfo n \<in> set ls \<longrightarrow>
        r = Some (Inr ()) \<and>
        (current_pr s = None \<and> (\<forall>pr. DetectedPr pr \<notin> set ls) \<longrightarrow>
           IssueClosedNoPrWarning n \<in> set ls))"
  using assms
proof (induction fuel arbitrary: s w)
  case 0
  then show ?case by (intro exI[of _ "[]"]) simp
next
  case (Suc fuel)
  obtain r1 w1 where t: "tick a gh n s w = (r1, w1)" by (cases "tick a gh n s w")
  from tick_pass[OF t] obtain l1 where
    l1: "logs w1 = logs w @ l1" and ok: "pass_ok n s r1 l1" by blast
  show ?case
  proof (cases r1)
    case (Continue s1)
    with Suc.prems(1) t have loop: "wm_loop fuel a gh n s1 w1 = (r, w')" by simp
    from ok Continue have nc: "IssueClosedInfo n \<notin> set l1"
      and cp: "current_pr s1 = None \<or> current_pr s1 = current_pr s \<or>
        (\<exists>pr. DetectedPr pr \<in> set l1)"
      by (auto simp: pass_ok_def)
    from Suc.IH[OF loop] obtain l2 where
      l2: "logs w' = logs w1 @ l2"
        "IssueClosedInfo n \<in> set l2 \<longrightarrow>
           r = Some (Inr ()) \<and>
           (current_pr s1 = None \<and> (\<forall>pr. DetectedPr pr \<notin> set l2) \<longrightarrow>
              IssueClosedNoPrWarning n \<in> set l2)" by blast
    have "logs w' = logs w @ (l1 @ l2)" using l1 l2(1) by simp
    moreover have "IssueClosedInfo n \<in> set (l1 @ l2) \<longrightarrow>
        r = Some (Inr ()) \<and>
        (current_pr s = None \<and> (\<forall>pr. DetectedPr pr \<notin> set (l1 @ l2)) \<longrightarrow>
           IssueClosedNoPrWarning n \<in> set (l1 @ l2))"
      using nc cp l2(2) by auto
    ultimately show ?thesis by blast
  next
    case Return
    with Suc.prems(1) t have "r = Some (Inr ())" "w' = w1" by simp_all
    moreover from ok Return have
      "IssueClosedInfo n \<in> set l1 \<and> current_pr s = None \<longrightarrow> IssueClosedNoPrWarning n \<in> set l1"
      by (simp add: pass_ok_def)
    ultimately show ?thesis using l1 by (intro exI[of _ l1]) auto
  next
    case (Raise e)
    with Suc.prems(1) t have "r = Some (Inl e)" "w' = w1" by simp_all
    moreover from ok Raise have "IssueClosedInfo n \<notin> set l1" by (simp add: pass_ok_def)
    ultimately show ?thesis using l1 by (intro exI[of _ l1]) auto
  qed
qed

section \<open>Bounded retry of one tracker command\<close>


text \<open>
  C8. In \<open>_run_gh\<close>: a failed command whose error text contains \<open>not found\<close> or
  \<open>unknown\<close> raises at once, with no further attempt and no wait; a rate-limit error
  (text containing \<open>rate limit\<close> or \<open>abuse\<close>) before the last attempt waits
  \<open>min (300 * attempt) 1800\<close> seconds, strictly longer than the wait after a time-out or
  after any other failure at the same attempt; and when no attempt succeeds the call
  raises, after at most \<open>retries\<close> attempts.
\<close>


theorem run_gh_retry_policy:
  "(attempt \<le> retries \<and> procs w (nprocs w) = CalledProcessError err \<and>
      is_fatal_error (stderr_text err) \<longrightarrow>
      (\<exists>m. fst (run_gh_from cmd retries attempt w) = Inl (RuntimeError m)) \<and>
      snd (run_gh_from cmd retries attempt w) = snd (subprocess_run cmd w))
   \<and> (1 \<le> attempt \<and> attempt < retries \<and> procs w (nprocs w) = CalledProcessError err \<and>
      \<not> is_fatal_error (stderr_text err) \<and> is_rate_limit (stderr_text err) \<longrightarrow>
      run_gh_from cmd retries attempt w =
        run_gh_from cmd retries (Suc attempt)
          (time_sleep (int (min (300 * attempt) 1800)) (snd (subprocess_run cmd w))) \<and>
      timeout_wait attempt < min (300 * attempt) 1800 \<and>
      (\<forall>s'. \<not> is_rate_limit s' \<longrightarrow> failure_wait attempt s' < min (300 * attempt) 1800))
   \<and> ((\<forall>k out. procs w (nprocs w + k) \<noteq> Completed out) \<longrightarrow>
      (\<exists>e. fst (run_gh cmd retries w) = Inl e) \<and>
      nprocs (snd (run_gh cmd retries w)) \<le> nprocs w + retries)"
proof (intro conjI impI)
  assume a: "attempt \<le> retries \<and> procs w (nprocs w) = CalledProcessError err \<and>
      is_fatal_error (stderr_text err)"
  from a run_gh_fatal[of attempt retries w err cmd]
  show "\<exists>m. fst (run_gh_from cmd retries attempt w) = Inl (RuntimeError m)" by simp
  from a run_gh_fatal[of attempt retries w err cmd]
  show "snd (run_gh_from cmd retries attempt w) = snd (subprocess_run cmd w)" by simp
next
  assume a: "1 \<le> attempt \<and> attempt < retries \<and> procs w (nprocs w) = CalledProcessError err \<and>
      \<not> is_fatal_error (stderr_text err) \<and> is_rate_limit (stderr_text err)"
  then show "run_gh_from cmd retries attempt w =
        run_gh_from cmd retries (Suc attempt)
          (time_sleep (int (min (300 * attempt) 1800)) (snd (subprocess_run cmd w)))"
    using run_gh_rate_limit by blast
  from a have a1: "1 \<le> attempt" by simp
  show "timeout_wait attempt < min (300 * attempt) 1800"
    by (rule rate_limit_longer_timeout[OF a1])
  show "\<forall>s'. \<not> is_rate_limit s' \<longrightarrow> failure_wait attempt s' < min (300 * attempt) 1800"
    using rate_limit_longer[OF a1] by blast
next
  assume a: "\<forall>k out. procs w (nprocs w + k) \<noteq> Completed out"
  then show "\<exists>e. fst (run_gh cmd retries w) = Inl e"
    unfolding run_gh_def by (rule run_gh_exhaust)
  show "nprocs (snd (run_gh cmd retries w)) \<le> nprocs w + retries"
    using run_gh_from_world[of cmd retries 1 w] by (simp add: run_gh_def)
qed

theorem run_gh_retry_policy_witness:
  "fst (run_gh_from (IssueView 7) 3 1 (w_const (CalledProcessError ''HTTP 404: Not Found''))) =
     Inl (RuntimeError (GhFatal ''HTTP 404: Not Found''))
   \<and> nprocs (snd (run_gh_from (IssueView 7) 3 1 (w_const (CalledProcessError ''HTTP 404: Not Found'')))) = 1
   \<and> run_gh_from (IssueView 7) 3 1 (w_const (CalledProcessError ''API rate limit exceeded'')) =
       run_gh_from (IssueView 7) 3 2
         (time_sleep 300 (snd (subprocess_run (IssueView 7) (w_const (CalledProcessError ''API rate limit exceeded'')))))
   \<and> timeout_wait 1 < 300
   \<and> (\<exists>e. fst (run_gh (IssueView 7) 3 (w_const TimeoutExpired)) = Inl e)
   \<and> nprocs (snd (run_gh (IssueView 7) 3 (w_const TimeoutExpired))) \<le> 3"
proof -
  have f: "is_fatal_error (stderr_text ''HTTP 404: Not Found'')"
    by (simp add: is_fatal_error_def stderr_text_def strip_def is_space_def lower_def lower_char_def)
  have r: "is_rate_limit (stderr_text ''API rate limit exceeded'')"
     "\<not> is_fatal_error (stderr_text ''API rate limit exceeded'')"
    by (simp_all add: is_fatal_error_def is_rate_limit_def stderr_text_def strip_def is_space_def lower_def lower_char_def)
  have s: "stderr_text ''HTTP 404: Not Found'' = ''HTTP 404: Not Found''"
    by (simp add: stderr_text_def strip_def is_space_def)
  show ?thesis
    using run_gh_retry_policy[of 1 3 "w_const (CalledProcessError ''HTTP 404: Not Found'')"
        "''HTTP 404: Not Found''" "IssueView 7"]
      run_gh_retry_policy[of 1 3 "w_const (CalledProcessError ''API rate limit exceeded'')"
        "''API rate limit exceeded''" "IssueView 7"]
      run_gh_retry_policy[of 1 3 "w_const TimeoutExpired" "[]" "IssueView 7"]
      f r
    apply (simp add: w_const_def subprocess_run_def numeral_2_eq_2)
    apply (subst run_gh_from.simps, simp add: subprocess_run_def f s)
    done
qed

section \<open>The completion-signal detector\<close>

lemma scan_signal_objs:
  "list_all is_obj evs \<Longrightarrow> scan_signal evs = Inr (list_ex is_marker evs)"
  by (induction evs) (auto simp: is_obj_def is_marker_def obj_get_def split: json.splits)

lemma scan_signal_recent:
  "list_all is_obj post \<Longrightarrow> is_marker m \<Longrightarrow> scan_signal (post @ m # pre) = Inr True"
  by (induction post) (auto simp: is_obj_def is_marker_def obj_get_def split: json.splits)

lemma signal_fetch_failure:
  "fst (run_gh (timeline_cmd pr) 3 w) = Inl e \<Longrightarrow>
   check_copilot_signal gh pr w = (Inr False, snd (run_gh (timeline_cmd pr) 3 w))"
  by (cases "run_gh (timeline_cmd pr) 3 w")
     (simp add: check_copilot_signal_def api_request_def timeline_cmd_def)

lemma signal_decode_failure:
  "fst (run_gh (timeline_cmd pr) 3 w) = Inr out \<Longrightarrow> out = [] \<or> json_loads gh out = None \<Longrightarrow>
   check_copilot_signal gh pr w = (Inr False, snd (run_gh (timeline_cmd pr) 3 w))"
  by (cases "run_gh (timeline_cmd pr) 3 w")
     (auto simp add: check_copilot_signal_def api_request_def timeline_cmd_def)

lemma signal_decoded:
  "fst (run_gh (timeline_cmd pr) 3 w) = Inr out \<Longrightarrow> out \<noteq> [] \<Longrightarrow> json_loads gh out = Some j \<Longrightarrow>
   check_copilot_signal gh pr w =
     ((case j of JList evs \<Rightarrow> scan_signal (rev evs) | _ \<Rightarrow> Inr False),
      snd (run_gh (timeline_cmd pr) 3 w))"
  by (cases "run_gh (timeline_cmd pr) 3 w")
     (auto simp add: check_copilot_signal_def api_request_def timeline_cmd_def split: json.splits)

text \<open>
  C2. \<open>check_copilot_signal\<close> returns false, and does not raise, when the timeline
  cannot be fetched (the command fails) or cannot be decoded. On a timeline whose events
  are objects it returns true exactly when one of them is the completion marker
  \<open>copilot_work_finished\<close>. It scans from the most recent event backwards: a marker
  that is followed by objects only is found whatever stands before it.
\<close>

theorem check_copilot_signal_detects:
  "(fst (run_gh (timeline_cmd pr) 3 w) = Inl e \<longrightarrow>
      fst (check_copilot_signal gh pr w) = Inr False)
   \<and> (fst (run_gh (timeline_cmd pr) 3 w) = Inr out \<and> (out = [] \<or> json_loads gh out = None) \<longrightarrow>
      fst (check_copilot_signal gh pr w) = Inr False)
   \<and> (fst (run_gh (timeline_cmd pr) 3 w) = Inr out \<and> out \<noteq> [] \<and>
       json_loads gh out = Some (JList evs) \<and> list_all is_obj evs \<longrightarrow>
      fst (check_copilot_signal gh pr w) = Inr (list_ex is_marker evs))
   \<and> (fst (run_gh (timeline_cmd pr) 3 w) = Inr out \<and> out \<noteq> [] \<and>
       json_loads gh out = Some (JList (older @ m # newer)) \<and> is_marker m \<and>
       list_all is_obj newer \<longrightarrow>
      fst (check_copilot_signal gh pr w) = Inr True)"
proof (intro conjI impI)
  assume "fst (run_gh (timeline_cmd pr) 3 w) = Inl e"
  then show "fst (check_copilot_signal gh pr w) = Inr False"
    by (simp add: signal_fetch_failure)
next
  assume "fst (run_gh (timeline_cmd pr) 3 w) = Inr out \<and> (out = [] \<or> json_loads gh out = None)"
  then show "fst (check_copilot_signal gh pr w) = Inr False"
    using signal_decode_failure[of pr w out gh] by auto
next
  assume "fst (run_gh (timeline_cmd pr) 3 w) = Inr out \<and> out \<noteq> [] \<and>
       json_loads gh out = Some (JList evs) \<and> list_all is_obj evs"
  then show "fst (check_copilot_signal gh pr w) = Inr (list_ex is_marker evs)"
    using signal_decoded[of pr w out gh "JList evs"] scan_signal_objs[of "rev evs"]
    by (simp add: list_all_iff list_ex_iff)
next
  assume a: "fst (run_gh (timeline_cmd pr) 3 w) = Inr out \<and> out \<noteq> [] \<and>
       json_loads gh out = Some (JList (older @ m # newer)) \<and> is_marker m \<and>
       list_all is_obj newer"
  then have "scan_signal (rev newer @ m # rev older) = Inr True"
    using scan_signal_recent[of "rev newer" m "rev older"] by (simp add: list_all_iff)
  with a show "fst (check_copilot_signal gh pr w) = Inr True"
    using signal_decoded[of pr w out gh "JList (older @ m # newer)"] by simp
qed


theorem check_copilot_signal_detects_witness:
  "fst (check_copilot_signal ex_gh (JInt 12) (w_const TimeoutExpired)) = Inr False
   \<and> fst (check_copilot_signal ex_gh (JInt 12) (w_const (Completed ''garbage''))) = Inr False
   \<and> fst (check_copilot_signal ex_gh (JInt 12) (w_const (Completed ''QUIET''))) = Inr False
   \<and> fst (check_copilot_signal ex_gh (JInt 12) (w_const (Completed ''SIGNALED''))) = Inr True"
proof -
  have timeout: "fst (run_gh (timeline_cmd (JInt 12)) 3 (w_const TimeoutExpired)) =
      Inl (RuntimeError (GhTimeout (timeline_cmd (JInt 12))))"
    by (simp add: run_gh_def run_gh_from.simps w_const_def subprocess_run_def time_sleep_def)
  have out: "fst (run_gh (timeline_cmd (JInt 12)) 3 (w_const (Completed ''garbage''))) = Inr ''garbage''"
    "fst (run_gh (timeline_cmd (JInt 12)) 3 (w_const (Completed ''QUIET''))) = Inr ''QUIET''"
    "fst (run_gh (timeline_cmd (JInt 12)) 3 (w_const (Completed ''SIGNALED''))) = Inr ''SIGNALED''"
    by (simp_all add: run_gh_def run_gh_from.simps w_const_def subprocess_run_def strip_def
        is_space_def)
  have loads: "json_loads ex_gh ''garbage'' = None"
    "json_loads ex_gh ''QUIET'' = Some (JList [event_of ''labeled'', event_of ''commented''])"
    "json_loads ex_gh ''SIGNALED'' = Some (JList ex_timeline)"
    by (simp_all add: ex_gh_def ex_replies_def)
  have quiet: "list_all is_obj [event_of ''labeled'', event_of ''commented'']"
    "\<not> list_ex is_marker [event_of ''labeled'', event_of ''commented'']"
    by (simp_all add: event_of_def is_obj_def is_marker_def obj_get_def)
  have split: "ex_timeline = [event_of ''labeled''] @ event_of ''copilot_work_finished'' #
      [event_of ''commented'', event_of ''committed'', event_of ''review_requested'']"
    by (simp add: ex_timeline_def)
  have marked: "is_marker (event_of ''copilot_work_finished'')"
    "list_all is_obj [event_of ''commented'', event_of ''committed'', event_of ''review_requested'']"
    by (simp_all add: event_of_def is_obj_def is_marker_def obj_get_def)
  show ?thesis
    using check_copilot_signal_detects[where pr = "JInt 12" and w = "w_const TimeoutExpired"
        and gh = ex_gh and e = "RuntimeError (GhTimeout (timeline_cmd (JInt 12)))"]
      check_copilot_signal_detects[where pr = "JInt 12" and w = "w_const (Completed ''garbage'')"
        and gh = ex_gh and out = "''garbage''"]
      check_copilot_signal_detects[where pr = "JInt 12" and w = "w_const (Completed ''QUIET'')"
        and gh = ex_gh and out = "''QUIET''"
        and evs = "[event_of ''labeled'', event_of ''commented'']"]
      check_copilot_signal_detects[where pr = "JInt 12" and w = "w_const (Completed ''SIGNALED'')"
        and gh = ex_gh and out = "''SIGNALED''"
        and older = "[event_of ''labeled'']" and m = "event_of ''copilot_work_finished''"
        and newer = "[event_of ''commented'', event_of ''committed'', event_of ''review_requested'']"]
      timeout out loads quiet marked split
    by simp
qed

section \<open>The work-item builder returns one stage at a time\<close>


lemma first_pending_split:
  "first_pending pats bs cids fs = Inr items \<Longrightarrow> items \<noteq> [] \<Longrightarrow>
   \<exists>pre f post. fs = pre @ f # post \<and> filtered_items pats bs cids f = Inr items \<and>
     (\<forall>g \<in> set pre. filtered_items pats bs cids g = Inr [])"
proof (induction fs)
  case Nil
  then show ?case by simp
next
  case (Cons a fs)
  show ?case
  proof (cases "filtered_items pats bs cids a")
    case (Inl e)
    with Cons.prems show ?thesis by simp
  next
    case (Inr its)
    show ?thesis
    proof (cases "its = []")
      case True
      with Inr Cons.prems have "first_pending pats bs cids fs = Inr items" by simp
      from Cons.IH[OF this Cons.prems(2)] obtain pre f post where
        h: "fs = pre @ f # post" "filtered_items pats bs cids f = Inr items"
           "\<forall>g \<in> set pre. filtered_items pats bs cids g = Inr []" by blast
      have "a # fs = (a # pre) @ f # post" using h(1) by simp
      moreover have "\<forall>g \<in> set (a # pre). filtered_items pats bs cids g = Inr []"
        using h(3) Inr True by simp
      ultimately show ?thesis using h(2) by blast
    next
      case False
      with Inr Cons.prems have "its = items" by simp
      with Inr have "a # fs = [] @ a # fs \<and> filtered_items pats bs cids a = Inr items \<and>
         (\<forall>g \<in> set []. filtered_items pats bs cids g = Inr [])" by simp
      then show ?thesis by blast
    qed
  qed
qed

lemma make_item_stage:
  "stage_number (make_item s f n ib) = s \<and> file_path (make_item s f n ib) = file_name f"
  by (cases ib) (simp add: make_item_def)

lemma filtered_items_stage:
  assumes "filtered_items pats bs cids f = Inr items" "it \<in> set items"
  shows "stage_number it = stage_of pats f \<and> file_path it = file_name f"
  using assms
  by (auto simp: filtered_items_def parse_stage_structure_def extract_stage_number_from_filename_def
      stage_items_def stage_of_def stage_file_sort_key_def make_item_stage Let_def
      split: sum.splits option.splits)

lemma sorted_files_split:
  assumes "sorted_files pats fs = pre @ f # post"
  shows "(\<forall>g \<in> set pre. stage_of pats g \<le> stage_of pats f) \<and>
         (\<forall>g \<in> set post. stage_of pats f \<le> stage_of pats g)"
proof -
  have "sorted (map (stage_file_sort_key pats) (pre @ f # post))"
    using assms[symmetric] by (simp add: sorted_files_def)
  then have "(\<forall>g \<in> set pre. stage_file_sort_key pats g \<le> stage_file_sort_key pats f) \<and>
         (\<forall>g \<in> set post. stage_file_sort_key pats f \<le> stage_file_sort_key pats g)"
    by (auto simp: sorted_append)
  then show ?thesis
    by (auto simp: stage_of_def less_eq_prod_def)
qed


lemma sorted_files_set: "set (sorted_files pats fs) = set fs"
  by (simp add: sorted_files_def)

text \<open>
  C10. What \<open>iter_work_items\<close> returns comes from one stage file: all items carry the stage
  number (and the path) of that file. The file is the first one, in ascending order of
  (stage number, name), whose filtered list of items is not empty: every listed file that
  sorts before it, and so every file of a lower stage, has nothing left to do.
\<close>

theorem iter_work_items_one_stage:
  "iter_work_items pats todo_root batch_size completed_ids = Inr items \<longrightarrow>
     (\<exists>s. \<forall>it \<in> set items. stage_number it = s) \<and>
     (items \<noteq> [] \<longrightarrow>
        (\<exists>f \<in> set (dir_glob todo_root).
           filtered_items pats (nat (max 1 batch_size)) completed_ids f = Inr items \<and>
           (\<forall>it \<in> set items. stage_number it = stage_of pats f \<and> file_path it = file_name f) \<and>
           (\<forall>g \<in> set (dir_glob todo_root).
              stage_file_sort_key pats g < stage_file_sort_key pats f \<longrightarrow>
              filtered_items pats (nat (max 1 batch_size)) completed_ids g = Inr []) \<and>
           (\<forall>g \<in> set (dir_glob todo_root).
              stage_of pats g < stage_of pats f \<longrightarrow>
              filtered_items pats (nat (max 1 batch_size)) completed_ids g = Inr [])))"
proof (intro impI)
  assume res: "iter_work_items pats todo_root batch_size completed_ids = Inr items"
  let ?bs = "nat (max 1 batch_size)"
  let ?fs = "sorted_files pats (dir_glob todo_root)"
  have nonempty: "\<exists>f \<in> set (dir_glob todo_root).
           filtered_items pats ?bs completed_ids f = Inr items \<and>
           (\<forall>it \<in> set items. stage_number it = stage_of pats f \<and> file_path it = file_name f) \<and>
           (\<forall>g \<in> set (dir_glob todo_root).
              stage_file_sort_key pats g < stage_file_sort_key pats f \<longrightarrow>
              filtered_items pats ?bs completed_ids g = Inr []) \<and>
           (\<forall>g \<in> set (dir_glob todo_root).
              stage_of pats g < stage_of pats f \<longrightarrow>
              filtered_items pats ?bs completed_ids g = Inr [])"
    if ne: "items \<noteq> []"
  proof -
    from res ne have fp: "first_pending pats ?bs completed_ids ?fs = Inr items"
      by (auto simp: iter_work_items_def split: if_splits)
    from first_pending_split[OF fp ne] obtain pre f post where
      sp: "?fs = pre @ f # post" and
      ff: "filtered_items pats ?bs completed_ids f = Inr items" and
      fpre: "\<forall>g \<in> set pre. filtered_items pats ?bs completed_ids g = Inr []" by blast
    have fin: "f \<in> set (dir_glob todo_root)"
      using sp sorted_files_set[of pats "dir_glob todo_root"] by auto
    have keys: "sorted (map (stage_file_sort_key pats) (pre @ f # post))"
      using sp[symmetric] by (simp add: sorted_files_def)
    have before: "filtered_items pats ?bs completed_ids g = Inr []"
      if g: "g \<in> set (dir_glob todo_root)"
        and lt: "stage_file_sort_key pats g < stage_file_sort_key pats f" for g
    proof -
      from g have "g \<in> set (pre @ f # post)"
        using sp sorted_files_set[of pats "dir_glob todo_root"] by auto
      moreover have "g \<noteq> f" using lt by auto
      moreover have "g \<notin> set post"
      proof
        assume "g \<in> set post"
        with keys have "stage_file_sort_key pats f \<le> stage_file_sort_key pats g"
          by (auto simp: sorted_append)
        with lt show False by simp
      qed
      ultimately have "g \<in> set pre" by auto
      with fpre show ?thesis by blast
    qed
    have lower_stage: "filtered_items pats ?bs completed_ids g = Inr []"
      if g: "g \<in> set (dir_glob todo_root)" and lt: "stage_of pats g < stage_of pats f" for g
    proof -
      from lt have "stage_file_sort_key pats g < stage_file_sort_key pats f"
        by (cases "stage_file_sort_key pats g"; cases "stage_file_sort_key pats f")
           (simp add: stage_of_def less_prod_def)
      with g show ?thesis by (rule before)
    qed
    from fin ff filtered_items_stage[OF ff] before lower_stage show ?thesis by blast
  qed
  have same: "\<exists>s. \<forall>it \<in> set items. stage_number it = s"
  proof (cases "items = []")
    case True
    then show ?thesis by simp
  next
    case False
    from nonempty[OF False] show ?thesis by blast
  qed
  from same nonempty show "(\<exists>s. \<forall>it \<in> set items. stage_number it = s) \<and>
     (items \<noteq> [] \<longrightarrow>
        (\<exists>f \<in> set (dir_glob todo_root).
           filtered_items pats ?bs completed_ids f = Inr items \<and>
           (\<forall>it \<in> set items. stage_number it = stage_of pats f \<and> file_path it = file_name f) \<and>
           (\<forall>g \<in> set (dir_glob todo_root).
              stage_file_sort_key pats g < stage_file_sort_key pats f \<longrightarrow>
              filtered_items pats ?bs completed_ids g = Inr []) \<and>
           (\<forall>g \<in> set (dir_glob todo_root).
              stage_of pats g < stage_of pats f \<longrightarrow>
              filtered_items pats ?bs completed_ids g = Inr [])))"
    by blast
qed

lemma ex_stage1_parsed: "parse_stage_structure ex_patterns ex_stage1 = Inr (1, [ex_todo2])"
  by (simp add: parse_stage_structure_def extract_stage_number_from_filename_def
      ex_patterns_def ex_stage1_def ex_todo2_def lower_def lower_char_def is_boundary_def
      is_group_header_def strip_def is_space_def clean_meta_def)

lemma ex_stage1_items: "stage_items (Suc 0) ex_stage1 (Suc 0) [ex_todo2] = [ex_item2]"
proof -
  have "chunks (Suc 0) [ex_todo2] = [[ex_todo2]]"
    by (subst chunks.simps, simp, subst chunks.simps, simp)
  then show ?thesis
    by (simp add: stage_items_def make_item_def ex_item2_def ex_stage1_def ex_todo2_def)
qed

lemma ex_stage1_filtered: "filtered_items ex_patterns (Suc 0) {''T1''} ex_stage1 = Inr [ex_item2]"
  by (simp add: filtered_items_def ex_stage1_parsed ex_stage1_items is_completed_def)
     (simp add: ex_item2_def is_batch_def)

lemma ex_dir_sorted: "sorted_files ex_patterns (dir_glob ex_dir) = [ex_stage1, ex_stage2]"
  by (simp add: sorted_files_def ex_dir_def stage_file_sort_key_def ex_patterns_def
      ex_stage1_def ex_stage2_def less_eq_prod_def)

lemma ex_dir_items: "iter_work_items ex_patterns ex_dir 1 {''T1''} = Inr [ex_item2]"
proof -
  have "\<not> list_ex (\<lambda>f. stage_file_pattern ex_patterns (file_name f) = None) (dir_glob ex_dir)"
    by (simp add: ex_dir_def ex_patterns_def ex_stage1_def ex_stage2_def)
  then show ?thesis
    by (simp add: iter_work_items_def ex_dir_sorted ex_stage1_filtered) (simp add: ex_dir_def)
qed

theorem iter_work_items_one_stage_witness:
  "iter_work_items ex_patterns ex_dir 1 {''T1''} = Inr [ex_item2] \<and>
   (\<exists>s. \<forall>it \<in> set [ex_item2]. stage_number it = s) \<and>
   (\<exists>f \<in> set (dir_glob ex_dir).
      filtered_items ex_patterns 1 {''T1''} f = Inr [ex_item2] \<and>
      (\<forall>g \<in> set (dir_glob ex_dir).
         stage_of ex_patterns g < stage_of ex_patterns f \<longrightarrow>
         filtered_items ex_patterns 1 {''T1''} g = Inr []))"
  using iter_work_items_one_stage[of ex_patterns ex_dir 1 "{''T1''}" "[ex_item2]"] ex_dir_items
  by simp blast

section \<open>The reset budget\<close>












section \<open>A closed ticket ends the monitoring\<close>


lemma closed_pass_returns:
  assumes "fst (time_time w) - issue_start_time s < real_of_int (issue_max_wait a)"
    "get_issue gh n (snd (time_time w)) = (Inr d, w1)"
    "obj_get d ''state'' JNull = Inr (JStr ''closed'')"
  shows "tick a gh n s w =
     (Return, (if no_current_pr s then logger (IssueClosedNoPrWarning n) else (\<lambda>x. x))
                (logger (IssueClosedInfo n) w1))"
  using assms by (simp add: tick_def split_beta)

lemma wait_and_merge_closed:
  assumes "wait_and_merge fuel p item n w = (res, w')"
  shows "\<exists>ls. logs w' = logs w @ ls \<and>
     (IssueClosedInfo n \<in> set ls \<longrightarrow>
        res = Some (Inr ()) \<and>
        ((\<forall>pr. DetectedPr pr \<notin> set ls) \<longrightarrow> IssueClosedNoPrWarning n \<in> set ls))"
proof (cases "dry_run (args p)")
  case True
  then have "res = Some (Inr ())" "w' = w" using assms by (auto simp: wait_and_merge_def)
  then show ?thesis by (intro exI[of _ "[]"]) simp
next
  case nd: False
  show ?thesis
  proof (cases "github p")
    case None
    then have "w' = w" using assms nd by (auto simp: wait_and_merge_def)
    then show ?thesis by (intro exI[of _ "[]"]) simp
  next
    case (Some gh)
    let ?s = "initial_state (fst (time_time w))"
    have loop: "wm_loop fuel (args p) gh n ?s (snd (time_time w)) = (res, w')"
      using assms nd Some by (simp add: wait_and_merge_def split_beta)
    from wm_loop_closed[OF loop] show ?thesis
      by (simp add: initial_state_def)
  qed
qed

text \<open>
  C3. In a pass of the monitoring loop that fetches the ticket (the absolute ceiling is
  not reached and the fetch succeeds), a ticket whose state is \<open>closed\<close> ends the
  monitoring with success: the pass logs that the ticket is closed, logs the warning when
  no change-request is tracked, and returns; it runs no further command, so it neither
  resets nor raises. Over a whole monitoring: when the closing of the ticket is logged,
  the monitoring returned normally, and when no change-request was detected during it,
  the warning is logged as well.
\<close>

theorem closed_ticket_is_success:
  "(fst (time_time w) - issue_start_time s < real_of_int (issue_max_wait a) \<and>
    get_issue gh n (snd (time_time w)) = (Inr d, w1) \<and>
    obj_get d ''state'' JNull = Inr (JStr ''closed'') \<longrightarrow>
      tick a gh n s w =
        (Return, (if no_current_pr s then logger (IssueClosedNoPrWarning n) else (\<lambda>x. x))
                   (logger (IssueClosedInfo n) w1)) \<and>
      wm_loop (Suc fuel) a gh n s w =
        (Some (Inr ()), (if no_current_pr s then logger (IssueClosedNoPrWarning n) else (\<lambda>x. x))
                          (logger (IssueClosedInfo n) w1)))
   \<and> (wait_and_merge fuel p item n w = (res, w') \<longrightarrow>
      (\<exists>ls. logs w' = logs w @ ls \<and>
         (IssueClosedInfo n \<in> set ls \<longrightarrow>
            res = Some (Inr ()) \<and>
            ((\<forall>pr. DetectedPr pr \<notin> set ls) \<longrightarrow> IssueClosedNoPrWarning n \<in> set ls))))"
proof (intro conjI impI)
  assume a: "fst (time_time w) - issue_start_time s < real_of_int (issue_max_wait a) \<and>
    get_issue gh n (snd (time_time w)) = (Inr d, w1) \<and>
    obj_get d ''state'' JNull = Inr (JStr ''closed'')"
  then show t: "tick a gh n s w =
        (Return, (if no_current_pr s then logger (IssueClosedNoPrWarning n) else (\<lambda>x. x))
                   (logger (IssueClosedInfo n) w1))"
    by (simp add: closed_pass_returns)
  show "wm_loop (Suc fuel) a gh n s w =
        (Some (Inr ()), (if no_current_pr s then logger (IssueClosedNoPrWarning n) else (\<lambda>x. x))
                          (logger (IssueClosedInfo n) w1))"
    using t by simp
next
  assume "wait_and_merge fuel p item n w = (res, w')"
  then show "\<exists>ls. logs w' = logs w @ ls \<and>
         (IssueClosedInfo n \<in> set ls \<longrightarrow>
            res = Some (Inr ()) \<and>
            ((\<forall>pr. DetectedPr pr \<notin> set ls) \<longrightarrow> IssueClosedNoPrWarning n \<in> set ls))"
    by (rule wait_and_merge_closed)
qed

theorem closed_ticket_is_success_witness:
  "tick ex_args ex_gh 7 (initial_state 0) (w_script [Completed ''CLOSED''] TimeoutExpired [10]) =
     (Return, logger (IssueClosedNoPrWarning 7) (logger (IssueClosedInfo 7)
        (snd (get_issue ex_gh 7 (snd (time_time
           (w_script [Completed ''CLOSED''] TimeoutExpired [10]))))))) \<and>
   fst (wait_and_merge 1 ex_pipeline ex_item2 7
          (w_script [Completed ''CLOSED''] TimeoutExpired [0, 10])) = Some (Inr ()) \<and>
   trace (snd (wait_and_merge 1 ex_pipeline ex_item2 7
          (w_script [Completed ''CLOSED''] TimeoutExpired [0, 10]))) =
     [Run (IssueView 7), Log (IssueClosedInfo 7), Log (IssueClosedNoPrWarning 7)] \<and>
   (\<exists>ls. logs (snd (wait_and_merge 1 ex_pipeline ex_item2 7
             (w_script [Completed ''CLOSED''] TimeoutExpired [0, 10]))) =
          logs (w_script [Completed ''CLOSED''] TimeoutExpired [0, 10]) @ ls \<and>
      IssueClosedNoPrWarning 7 \<in> set ls)"
proof -
  let ?w = "w_script [Completed ''CLOSED''] TimeoutExpired [10]"
  let ?v = "w_script [Completed ''CLOSED''] TimeoutExpired [0, 10]"
  let ?X = "wait_and_merge 1 ex_pipeline ex_item2 7 ?v"
  have h1: "fst (time_time ?w) - issue_start_time (initial_state 0) <
      real_of_int (issue_max_wait ex_args)"
    by (simp add: time_time_def w_script_def tape_def initial_state_def ex_args_def)
  have h2: "fst (get_issue ex_gh 7 (snd (time_time ?w))) =
      Inr (JObj [(''number'', JInt 7), (''state'', JStr ''closed''), (''assignees'', JList [])])"
    by code_simp
  have h3: "obj_get (JObj [(''number'', JInt 7), (''state'', JStr ''closed''),
      (''assignees'', JList [])]) ''state'' JNull = Inr (JStr ''closed'')"
    by (simp add: obj_get_def)
  have h4: "no_current_pr (initial_state 0)"
    by (simp add: no_current_pr_def initial_state_def)
  have t: "tick ex_args ex_gh 7 (initial_state 0) ?w =
     (Return, logger (IssueClosedNoPrWarning 7) (logger (IssueClosedInfo 7)
        (snd (get_issue ex_gh 7 (snd (time_time ?w))))))"
    using closed_ticket_is_success[where a = ex_args and gh = ex_gh and n = 7
        and s = "initial_state 0" and w = ?w
        and d = "JObj [(''number'', JInt 7), (''state'', JStr ''closed''), (''assignees'', JList [])]"
        and ?w1.0 = "snd (get_issue ex_gh 7 (snd (time_time ?w)))"]
      h1 h2 h3 h4
    by (simp add: prod_eq_iff)
  have r: "fst ?X = Some (Inr ())" by code_simp
  have tr: "trace (snd ?X) =
     [Run (IssueView 7), Log (IssueClosedInfo 7), Log (IssueClosedNoPrWarning 7)]"
    by code_simp
  have lg: "logs (snd ?X) = [IssueClosedInfo 7, IssueClosedNoPrWarning 7]"
    using tr by (simp add: logs_def)
  have l0: "logs ?v = []" by (simp add: logs_def w_script_def)
  have "\<exists>ls. logs (snd ?X) = logs ?v @ ls \<and>
     (IssueClosedInfo 7 \<in> set ls \<longrightarrow>
       fst ?X = Some (Inr ()) \<and>
       ((\<forall>pr. DetectedPr pr \<notin> set ls) \<longrightarrow> IssueClosedNoPrWarning 7 \<in> set ls))"
    using conjunct2[OF closed_ticket_is_success[where fuel = 1 and p = ex_pipeline
      and item = ex_item2 and n = 7 and w = ?v and res = "fst ?X" and w' = "snd ?X"]]
    by simp
  then obtain ls where ls: "logs (snd ?X) = logs ?v @ ls"
    "IssueClosedInfo 7 \<in> set ls \<longrightarrow>
       fst ?X = Some (Inr ()) \<and>
       ((\<forall>pr. DetectedPr pr \<notin> set ls) \<longrightarrow> IssueClosedNoPrWarning 7 \<in> set ls)"
    by blast
  from ls(1) lg l0 have "ls = [IssueClosedInfo 7, IssueClosedNoPrWarning 7]" by simp
  with ls have "IssueClosedNoPrWarning 7 \<in> set ls" by simp
  with t r tr ls(1) show ?thesis by blast
qed

section \<open>The tracked change-request and the priority of the signal\<close>


lemma scan_plain:
  "list_all plain_event evs \<Longrightarrow> scan_cross_referenced evs = Inr JNull"
  by (induction evs)
     (auto simp: plain_event_def obj_get_def py_contains_def
       split: json.splits option.splits if_splits)








section \<open>The reset of a ticket\<close>


lemma reset_issue_open:
  assumes "get_issue gh n w = (Inr d, w1)" "obj_get d ''state'' JNull = Inr state"
    "state \<noteq> JStr ''closed''" "assignee_logins d = Inr assignees"
  shows "reset_issue gh n w =
     add_assignees gh n COPILOT_ASSIGNEES
       (if COPILOT_USERNAME \<in> set assignees
        then time_sleep 2 (remove_assignees gh n COPILOT_ASSIGNEES w1) else w1)"
  using assms by (simp add: reset_issue_def)

lemma reset_issue_closed:
  assumes "get_issue gh n w = (Inr d, w1)" "obj_get d ''state'' JNull = Inr (JStr ''closed'')"
  shows "reset_issue gh n w = (Inr (), logger (SkipResetClosed n) w1)"
  using assms by (simp add: reset_issue_def)

lemma extends_reset_issue: "extends (reset_events n) w (snd (reset_issue gh n w))"
proof -
  let ?A = "reset_events n"
  have sub: "gh_events (ticket_cmds n) \<subseteq> ?A" by (auto simp: reset_events_def)
  let ?w1 = "snd (get_issue gh n w)"
  have g: "extends ?A w ?w1"
    by (rule extends_mono[OF extends_get_issue sub]) (simp add: ticket_cmds_def)
  have rm: "extends ?A v (remove_assignees gh n names v)" for v names
    by (rule extends_mono[OF extends_remove_assignees sub]) (auto simp: ticket_cmds_def)
  have ad: "extends ?A v (snd (add_assignees gh n names v))" for v names
    by (rule extends_mono[OF extends_add_assignees sub]) (auto simp: ticket_cmds_def)
  have sl: "extends ?A v (time_sleep 2 v)" for v
    by (rule extends_time_sleep) (simp add: reset_events_def)
  have lg: "extends ?A v (logger (SkipResetClosed n) v)" for v
    by (rule extends_logger) (simp add: reset_events_def)
  have both: "extends ?A ?w1 (snd (add_assignees gh n names
      (time_sleep 2 (remove_assignees gh n names' ?w1))))" for names names'
    by (rule extends_trans[OF extends_trans[OF rm sl] ad])
  show ?thesis
    using g lg[of ?w1] ad[of ?w1] both
    by (auto simp: reset_issue_def split_beta split: sum.splits intro: extends_trans)
qed

lemma reset_creates_nothing:
  "Run (IssueCreate t) \<notin> set (new_events w (snd (reset_issue gh n w)))"
  using extends_new_events[OF extends_reset_issue[of n w gh]]
  by (auto simp: reset_events_def gh_events_def ticket_cmds_def)

lemma create_and_assign_fallback:
  assumes "create_issue gh (issue_title item) w = (Inr m, w1)"
  shows "fst (create_and_assign gh item w) =
     (case fst (add_assignees gh m COPILOT_ASSIGNEES w1) of
        Inl e \<Rightarrow> Inl (RuntimeError (CannotAssign m e))
      | Inr u \<Rightarrow> Inr m)"
  using assms by (simp add: create_and_assign_def split_beta split: sum.splits)

lemma add_assignees_first_success:
  assumes "fst (run_gh (IssueAddAssignee n c) 3 w) = Inr out"
  shows "add_assignees gh n (c # cs) w = (Inr (), snd (run_gh (IssueAddAssignee n c) 3 w))"
  using assms by (simp add: add_assignees_def split_beta)

lemma add_assignees_loop_all_fail:
  "(\<forall>k out. procs w (nprocs w + k) \<noteq> Completed out) \<Longrightarrow> le \<noteq> None \<or> names \<noteq> [] \<Longrightarrow>
   \<exists>e. fst (add_assignees_loop n m names le w) = Inl e"
proof (induction names arbitrary: le w)
  case Nil
  then show ?case by (auto split: option.splits)
next
  case (Cons c names)
  let ?w1 = "snd (run_gh (IssueAddAssignee n c) 3 w)"
  from run_gh_exhaust[OF Cons.prems(1), of "IssueAddAssignee n c" 3 1]
  obtain e where e: "fst (run_gh (IssueAddAssignee n c) 3 w) = Inl e" by (auto simp: run_gh_def)
  have ex: "extends (gh_events {IssueAddAssignee n c}) w ?w1" by (rule extends_gh) simp
  have mono: "nprocs w \<le> nprocs ?w1" "procs ?w1 = procs w"
    using run_gh_from_world[of "IssueAddAssignee n c" 3 1 w] by (simp_all add: run_gh_def)
  have "\<forall>k out. procs ?w1 (nprocs ?w1 + k) \<noteq> Completed out"
  proof (intro allI)
    fix k out
    have "nprocs ?w1 + k = nprocs w + (nprocs ?w1 - nprocs w + k)" using mono(1) by simp
    then show "procs ?w1 (nprocs ?w1 + k) \<noteq> Completed out"
      using Cons.prems(1) mono(2) by metis
  qed
  from Cons.IH[OF this, of "Some e"] e show ?case by (simp add: split_beta)
qed

lemma add_assignees_next:
  assumes "fst (run_gh (IssueAddAssignee n c) 3 w) = Inl e"
  shows "add_assignees_loop n k (c # cs) le w =
     add_assignees_loop n k cs (Some e) (snd (run_gh (IssueAddAssignee n c) 3 w))"
  using assms by (simp add: split_beta)

text \<open>
  C9, as the code has it. A reset of a ticket whose fetched state is not \<open>closed\<close>: when
  the agent is among the assignees, every candidate name is removed and the reset waits
  2 seconds; then the agent is added with \<open>add_assignees\<close> over \<open>COPILOT_ASSIGNEES\<close>, the
  call that the creation of a ticket makes as well (the names in order, the first success
  ends it, a failure goes on to the next name). A reset of a closed ticket is skipped.
  In every case the reset only views ticket \<open>n\<close> and changes its assignees: it runs no
  command on another ticket and creates none.
\<close>

theorem reset_issue_reassigns:
  "(get_issue gh n w = (Inr d, w1) \<and> obj_get d ''state'' JNull = Inr state \<and>
    state \<noteq> JStr ''closed'' \<and> assignee_logins d = Inr assignees \<longrightarrow>
      reset_issue gh n w =
        add_assignees gh n COPILOT_ASSIGNEES
          (if COPILOT_USERNAME \<in> set assignees
           then time_sleep 2 (remove_assignees gh n COPILOT_ASSIGNEES w1) else w1))
   \<and> (get_issue gh n w = (Inr d, w1) \<and> obj_get d ''state'' JNull = Inr (JStr ''closed'') \<longrightarrow>
      reset_issue gh n w = (Inr (), logger (SkipResetClosed n) w1))
   \<and> extends (reset_events n) w (snd (reset_issue gh n w))
   \<and> (\<forall>t. Run (IssueCreate t) \<notin> set (new_events w (snd (reset_issue gh n w))))
   \<and> (create_issue gh (issue_title item) w = (Inr m, w1) \<longrightarrow>
      fst (create_and_assign gh item w) =
        (case fst (add_assignees gh m COPILOT_ASSIGNEES w1) of
           Inl e \<Rightarrow> Inl (RuntimeError (CannotAssign m e))
         | Inr u \<Rightarrow> Inr m))
   \<and> (fst (run_gh (IssueAddAssignee n c) 3 w) = Inr out \<longrightarrow>
      add_assignees gh n (c # cs) w = (Inr (), snd (run_gh (IssueAddAssignee n c) 3 w)))
   \<and> (fst (run_gh (IssueAddAssignee n c) 3 w) = Inl e \<longrightarrow>
      add_assignees_loop n k (c # cs) le w =
        add_assignees_loop n k cs (Some e) (snd (run_gh (IssueAddAssignee n c) 3 w)))"
proof (intro conjI impI allI)
  assume "get_issue gh n w = (Inr d, w1) \<and> obj_get d ''state'' JNull = Inr state \<and>
    state \<noteq> JStr ''closed'' \<and> assignee_logins d = Inr assignees"
  then show "reset_issue gh n w =
        add_assignees gh n COPILOT_ASSIGNEES
          (if COPILOT_USERNAME \<in> set assignees
           then time_sleep 2 (remove_assignees gh n COPILOT_ASSIGNEES w1) else w1)"
    using reset_issue_open[of gh n w d w1 state assignees] by simp
next
  assume "get_issue gh n w = (Inr d, w1) \<and> obj_get d ''state'' JNull = Inr (JStr ''closed'')"
  then show "reset_issue gh n w = (Inr (), logger (SkipResetClosed n) w1)"
    by (simp add: reset_issue_closed)
next
  show "extends (reset_events n) w (snd (reset_issue gh n w))"
    by (rule extends_reset_issue)
next
  fix t
  show "Run (IssueCreate t) \<notin> set (new_events w (snd (reset_issue gh n w)))"
    by (rule reset_creates_nothing)
next
  assume "create_issue gh (issue_title item) w = (Inr m, w1)"
  then show "fst (create_and_assign gh item w) =
        (case fst (add_assignees gh m COPILOT_ASSIGNEES w1) of
           Inl e \<Rightarrow> Inl (RuntimeError (CannotAssign m e))
         | Inr u \<Rightarrow> Inr m)"
    by (rule create_and_assign_fallback)
next
  assume "fst (run_gh (IssueAddAssignee n c) 3 w) = Inr out"
  then show "add_assignees gh n (c # cs) w = (Inr (), snd (run_gh (IssueAddAssignee n c) 3 w))"
    by (rule add_assignees_first_success)
next
  assume "fst (run_gh (IssueAddAssignee n c) 3 w) = Inl e"
  then show "add_assignees_loop n k (c # cs) le w =
        add_assignees_loop n k cs (Some e) (snd (run_gh (IssueAddAssignee n c) 3 w))"
    by (rule add_assignees_next)
qed

theorem reset_issue_reassigns_witness:
  "reset_issue ex_gh 7 (w_const (Completed ''OPEN_ASSIGNED'')) =
     add_assignees ex_gh 7 COPILOT_ASSIGNEES
       (time_sleep 2 (remove_assignees ex_gh 7 COPILOT_ASSIGNEES
          (snd (get_issue ex_gh 7 (w_const (Completed ''OPEN_ASSIGNED'')))))) \<and>
   trace (snd (reset_issue ex_gh 7 (w_const (Completed ''OPEN_ASSIGNED'')))) =
     [Run (IssueView 7), Run (IssueRemoveAssignee 7 ''@copilot''),
      Run (IssueRemoveAssignee 7 ''copilot''), Run (IssueRemoveAssignee 7 ''Copilot''),
      Run (IssueRemoveAssignee 7 ''github-copilot''),
      Run (IssueRemoveAssignee 7 ''github-copilot[bot]''), Sleep 2,
      Run (IssueAddAssignee 7 ''@copilot'')]"
proof -
  let ?w = "w_const (Completed ''OPEN_ASSIGNED'')"
  let ?d = "JObj [(''number'', JInt 7), (''state'', JStr ''open''),
          (''assignees'', JList [JObj [(''login'', JStr ''Copilot'')]])]"
  have g: "fst (get_issue ex_gh 7 ?w) = Inr ?d" by code_simp
  have s: "obj_get ?d ''state'' JNull = Inr (JStr ''open'')" by (simp add: obj_get_def)
  have a: "assignee_logins ?d = Inr [''copilot'']" by code_simp
  have c: "COPILOT_USERNAME \<in> set [''copilot'']" by (simp add: COPILOT_USERNAME_def)
  have r: "reset_issue ex_gh 7 ?w =
     add_assignees ex_gh 7 COPILOT_ASSIGNEES
       (time_sleep 2 (remove_assignees ex_gh 7 COPILOT_ASSIGNEES (snd (get_issue ex_gh 7 ?w))))"
    using conjunct1[OF reset_issue_reassigns[where gh = ex_gh and n = 7 and w = ?w and d = ?d
        and ?w1.0 = "snd (get_issue ex_gh 7 ?w)" and state = "JStr ''open''"
        and assignees = "[''copilot'']"]] g s a c
    by (simp add: prod_eq_iff)
  have t: "trace (snd (add_assignees ex_gh 7 COPILOT_ASSIGNEES
       (time_sleep 2 (remove_assignees ex_gh 7 COPILOT_ASSIGNEES (snd (get_issue ex_gh 7 ?w)))))) =
     [Run (IssueView 7), Run (IssueRemoveAssignee 7 ''@copilot''),
      Run (IssueRemoveAssignee 7 ''copilot''), Run (IssueRemoveAssignee 7 ''Copilot''),
      Run (IssueRemoveAssignee 7 ''github-copilot''),
      Run (IssueRemoveAssignee 7 ''github-copilot[bot]''), Sleep 2,
      Run (IssueAddAssignee 7 ''@copilot'')]"
    by code_simp
  from r t show ?thesis by simp
qed

text \<open>
  C9 as stated fails on a closed ticket: the reset is skipped and the agent is not added
  again.
\<close>

theorem reset_issue_reassigns_counterexample:
  "reset_issue ex_gh 7 (w_const (Completed ''CLOSED'')) =
     (Inr (), logger (SkipResetClosed 7) (snd (get_issue ex_gh 7 (w_const (Completed ''CLOSED''))))) \<and>
   trace (snd (reset_issue ex_gh 7 (w_const (Completed ''CLOSED'')))) =
     [Run (IssueView 7), Log (SkipResetClosed 7)]"
proof -
  have "reset_issue ex_gh 7 (w_const (Completed ''CLOSED'')) =
     (Inr (), logger (SkipResetClosed 7) (snd (get_issue ex_gh 7 (w_const (Completed ''CLOSED'')))))"
    by (simp add: reset_issue_def get_issue_def run_gh_first_ok w_const_def strip_def
        is_space_def ex_gh_def ex_replies_def obj_get_def)
  moreover have "trace (snd (reset_issue ex_gh 7 (w_const (Completed ''CLOSED'')))) =
     [Run (IssueView 7), Log (SkipResetClosed 7)]"
    by code_simp
  ultimately show ?thesis by simp
qed

section \<open>Ticket acquisition\<close>

lemma ensure_issue_reuses:
  assumes "\<not> dry_run (args p)" "github p = Some gh"
    "find_issue_by_todo gh (id_full item) w = (Inr (Some existing), w1)" "existing \<noteq> 0"
    "try_reuse gh existing w1 = (Inr True, w2)"
  shows "ensure_issue p item w = (Inr existing, w2)"
  using assms by (simp add: ensure_issue_def)

lemma ensure_issue_creates:
  assumes "\<not> dry_run (args p)" "github p = Some gh"
    "find_issue_by_todo gh (id_full item) w = (Inr (Some existing), w1)" "existing \<noteq> 0"
    "try_reuse gh existing w1 = (r, w2)" "r \<noteq> Inr True"
  shows "ensure_issue p item w = create_and_assign gh item w2"
  using assms by (cases r) (auto simp: ensure_issue_def)

lemma try_reuse_assigned:
  assumes "get_issue gh existing w = (Inr d, w1)" "obj_get d ''state'' JNull = Inr (JStr ''open'')"
    "assignee_logins d = Inr assignees" "COPILOT_USERNAME \<in> set assignees"
  shows "try_reuse gh existing w = (Inr True, w1)"
  using assms by (simp add: try_reuse_def)

lemma try_reuse_assigns:
  assumes "get_issue gh existing w = (Inr d, w1)" "obj_get d ''state'' JNull = Inr (JStr ''open'')"
    "assignee_logins d = Inr assignees" "COPILOT_USERNAME \<notin> set assignees"
    "add_assignees gh existing COPILOT_ASSIGNEES w1 = (Inr u, w2)"
  shows "try_reuse gh existing w = (Inr True, w2)"
  using assms by (simp add: try_reuse_def)

lemma try_reuse_not_open:
  assumes "get_issue gh existing w = (Inr d, w1)" "obj_get d ''state'' JNull = Inr state"
    "state \<noteq> JStr ''open''"
  shows "try_reuse gh existing w = (Inr False, w1)"
  using assms by (simp add: try_reuse_def)

lemma try_reuse_unfetched:
  assumes "get_issue gh existing w = (Inl e, w1)"
  shows "try_reuse gh existing w = (Inl e, w1)"
  using assms by (simp add: try_reuse_def)

text \<open>
  The failure of the assignment to the existing ticket is caught by the handler that
  is written for a failed fetch of the ticket's details, and a ticket is created.
\<close>

lemma try_reuse_assignment_fails:
  assumes "get_issue gh existing w = (Inr d, w1)" "obj_get d ''state'' JNull = Inr (JStr ''open'')"
    "assignee_logins d = Inr assignees" "COPILOT_USERNAME \<notin> set assignees"
    "add_assignees gh existing COPILOT_ASSIGNEES w1 = (Inl e, w2)"
  shows "try_reuse gh existing w = (Inl e, w2)"
  using assms by (simp add: try_reuse_def)

text \<open>
  C6. The claim holds when the agent is assigned already or can be assigned
  (\<open>ensure_issue_reuses\<close> with \<open>try_reuse_assigned\<close>, \<open>try_reuse_assigns\<close>), and a closed or
  unfetchable ticket leads to a fresh one (\<open>ensure_issue_creates\<close>). It fails where the
  assignment to the existing open ticket fails: ticket 7, titled \<open>[T1] first\<close>, is open
  and has no assignee; every candidate name is refused for it; \<open>_ensure_issue\<close> then
  creates ticket 8 for the same work item and returns 8.
\<close>

theorem ensure_issue_duplicates_ticket:
  "fst (ensure_issue ex_pipeline ex_item1 w_refused) = Inr 8 \<and>
   trace (snd (ensure_issue ex_pipeline ex_item1 w_refused)) =
     [Run (IssueListOpenSearch ''[T1]''), Run (IssueView 7),
      Run (IssueAddAssignee 7 ''@copilot''), Run (IssueAddAssignee 7 ''copilot''),
      Run (IssueAddAssignee 7 ''Copilot''), Run (IssueAddAssignee 7 ''github-copilot''),
      Run (IssueAddAssignee 7 ''github-copilot[bot]''),
      Run (IssueCreate ''[T1] first''), Run (IssueAddAssignee 8 ''@copilot'')]"
  by code_simp

section \<open>The retry of a work item\<close>



lemma retry_item_succeeds:
  assumes "attempt_item fuel p item w = (Some (Inr u), w1)"
  shows "retry_item fuel p item n w = (Some None, logger (ItemDone (id_full item)) w1)"
  using assms by (subst retry_item.simps) simp




section \<open>The batch runner and the exit of the process\<close>

lemma run_items_failed:
  assumes "retry_item fuel p item 1 w = (Some (Some e), w1)"
  shows "run_items fuel p (item # rest) failed_items w =
     run_items fuel p rest (failed_items @ [(id_full item, e)]) w1"
  using assms by simp

lemma run_items_done:
  assumes "retry_item fuel p item 1 w = (Some None, w1)"
  shows "run_items fuel p (item # rest) failed_items w = run_items fuel p rest failed_items w1"
  using assms by simp

text \<open>The failures are collected in the order of the items, one at most for each item.\<close>

lemma run_items_collects:
  "run_items fuel p items failed_items w = (Some failed', w') \<Longrightarrow>
   \<exists>new. failed' = failed_items @ new \<and> subseq (map fst new) (map id_full items)"
proof (induction items arbitrary: failed_items w)
  case Nil
  then show ?case by simp
next
  case (Cons item items)
  obtain r w1 where ri: "retry_item fuel p item 1 w = (r, w1)"
    by (cases "retry_item fuel p item 1 w")
  show ?case
  proof (cases r)
    case None
    with Cons.prems ri show ?thesis by simp
  next
    case (Some oe)
    show ?thesis
    proof (cases oe)
      case None
      with Cons.prems ri Some
      have "run_items fuel p items failed_items w1 = (Some failed', w')" by simp
      from Cons.IH[OF this] show ?thesis by auto
    next
      case (Some e)
      with Cons.prems ri \<open>r = Some oe\<close>
      have "run_items fuel p items (failed_items @ [(id_full item, e)]) w1 = (Some failed', w')"
        by simp
      from Cons.IH[OF this] obtain new where
        "failed' = (failed_items @ [(id_full item, e)]) @ new"
        "subseq (map fst new) (map id_full items)" by blast
      then have "failed' = failed_items @ ((id_full item, e) # new) \<and>
          subseq (map fst ((id_full item, e) # new)) (map id_full (item # items))"
        by simp
      then show ?thesis by blast
    qed
  qed
qed

lemma run_reports:
  assumes "run_items fuel p items [] w = (Some failed', w1)" "items \<noteq> []"
  shows "run fuel p items w =
     (Some (), if failed' \<noteq> [] then logger (FailureReport failed') w1 else w1)"
  using assms by (simp add: run_def)

text \<open>In the observe-only mode no attempt fails.\<close>

lemma dry_run_attempt:
  assumes "dry_run (args p)"
  shows "attempt_item fuel p item w = (Some (Inr ()), w)"
  using assms by (simp add: attempt_item_def ensure_issue_def)

lemma dry_run_items:
  assumes "dry_run (args p)"
  shows "fst (run_items fuel p items failed_items w) = Some failed_items"
proof (induction items arbitrary: w)
  case Nil
  then show ?case by simp
next
  case (Cons item items)
  have "retry_item fuel p item 1 w = (Some None, logger (ItemDone (id_full item)) w)"
    using dry_run_attempt[OF assms] by (subst retry_item.simps) simp
  then show ?case using Cons.IH by simp
qed

text \<open>Outside the observe-only mode a pass of \<open>main\<close> never leaves the loop.\<close>

lemma main_pass_goes_on:
  assumes "\<not> dry_run (args p)"
  shows "fst (main_pass fuel p pats todo_root w) = MNext \<or>
         fst (main_pass fuel p pats todo_root w) = MRunning"
  using assms
  by (auto simp: main_pass_def split_beta split: sum.splits option.splits)

lemma main_loop_never_exits:
  assumes "\<not> dry_run (args p)"
  shows "fst (main_loop passes fuel p pats todo_root w) = None"
proof (induction passes arbitrary: w)
  case 0
  then show ?case by simp
next
  case (Suc passes)
  obtain r w1 where mp: "main_pass fuel p pats todo_root w = (r, w1)"
    by (cases "main_pass fuel p pats todo_root w")
  with main_pass_goes_on[OF assms, of fuel pats todo_root w]
  have "r = MNext \<or> r = MRunning" by simp
  then show ?case using mp Suc.IH by auto
qed

text \<open>
  C4, as the code has it. When a work item fails its last attempt, the batch runner
  appends the pair of its identifier and error to the list of failures and goes on
  with the remaining items; the list holds the failures in the order of the items;
  \<open>run\<close> writes the list to the log when it is not empty and returns normally. The
  process does not exit on such a failure: outside the observe-only mode \<open>main\<close> never
  leaves its scanning loop, whatever the batch runner reported, and in the observe-only
  mode no work item fails.
\<close>

theorem run_records_failures:
  "(retry_item fuel p item 1 w = (Some (Some e), w1) \<longrightarrow>
      run_items fuel p (item # rest) failed_items w =
        run_items fuel p rest (failed_items @ [(id_full item, e)]) w1)
   \<and> (run_items fuel p items failed_items w = (Some failed', w') \<longrightarrow>
      (\<exists>new. failed' = failed_items @ new \<and> subseq (map fst new) (map id_full items)))
   \<and> (run_items fuel p items [] w = (Some failed', w1) \<and> items \<noteq> [] \<longrightarrow>
      run fuel p items w =
        (Some (), if failed' \<noteq> [] then logger (FailureReport failed') w1 else w1))
   \<and> (\<not> dry_run (args p) \<longrightarrow> fst (main_loop passes fuel p pats todo_root w) = None)
   \<and> (dry_run (args p) \<longrightarrow> fst (run_items fuel p items failed_items w) = Some failed_items)"
proof (intro conjI impI)
  assume "retry_item fuel p item 1 w = (Some (Some e), w1)"
  then show "run_items fuel p (item # rest) failed_items w =
        run_items fuel p rest (failed_items @ [(id_full item, e)]) w1"
    by (rule run_items_failed)
next
  assume "run_items fuel p items failed_items w = (Some failed', w')"
  then show "\<exists>new. failed' = failed_items @ new \<and> subseq (map fst new) (map id_full items)"
    by (rule run_items_collects)
next
  assume "run_items fuel p items [] w = (Some failed', w1) \<and> items \<noteq> []"
  then show "run fuel p items w =
        (Some (), if failed' \<noteq> [] then logger (FailureReport failed') w1 else w1)"
    using run_reports[of fuel p items w failed' w1] by simp
next
  assume "\<not> dry_run (args p)"
  then show "fst (main_loop passes fuel p pats todo_root w) = None"
    by (rule main_loop_never_exits)
next
  assume "dry_run (args p)"
  then show "fst (run_items fuel p items failed_items w) = Some failed_items"
    by (rule dry_run_items)
qed

theorem run_records_failures_witness:
  "run_items 0 ex_pipeline [ex_item2] [] (w_const TimeoutExpired) =
     (Some [(''T2'', RuntimeError (GhTimeout (IssueCreate ''[T2] second'')))],
      snd (retry_item 0 ex_pipeline ex_item2 1 (w_const TimeoutExpired))) \<and>
   run 0 ex_pipeline [ex_item2] (w_const TimeoutExpired) =
     (Some (),
      logger (FailureReport [(''T2'', RuntimeError (GhTimeout (IssueCreate ''[T2] second'')))])
        (snd (retry_item 0 ex_pipeline ex_item2 1 (w_const TimeoutExpired)))) \<and>
   fst (main_loop 3 0 ex_pipeline ex_patterns ex_dir (w_const TimeoutExpired)) = None \<and>
   fst (run_items 0 (ex_pipeline\<lparr>args := ex_args\<lparr>dry_run := True\<rparr>\<rparr>) [ex_item2] []
          (w_const TimeoutExpired)) = Some []"
proof -
  let ?e = "RuntimeError (GhTimeout (IssueCreate ''[T2] second''))"
  let ?w = "w_const TimeoutExpired"
  let ?w1 = "snd (retry_item 0 ex_pipeline ex_item2 1 ?w)"
  let ?pd = "ex_pipeline\<lparr>args := ex_args\<lparr>dry_run := True\<rparr>\<rparr>"
  note T = run_records_failures[where fuel = 0 and p = ex_pipeline and item = ex_item2
      and rest = "[]" and items = "[ex_item2]" and failed_items = "[]" and w = ?w and e = ?e
      and ?w1.0 = ?w1 and failed' = "[(''T2'', ?e)]" and passes = 3 and pats = ex_patterns
      and todo_root = ex_dir]
  note D = run_records_failures[where fuel = 0 and p = ?pd and items = "[ex_item2]"
      and failed_items = "[]" and w = ?w]
  have fr: "fst (retry_item 0 ex_pipeline ex_item2 1 ?w) = Some (Some ?e)" by code_simp
  have ri: "retry_item 0 ex_pipeline ex_item2 1 ?w = (Some (Some ?e), ?w1)"
    by (rule prod_eqI) (simp_all only: fst_conv snd_conv fr)
  have idf: "id_full ex_item2 = ''T2''" by code_simp
  have nd: "\<not> dry_run (args ex_pipeline)" by code_simp
  have d: "dry_run (args ?pd)" by simp
  have "run_items 0 ex_pipeline [ex_item2] [] ?w =
      run_items 0 ex_pipeline [] ([] @ [(id_full ex_item2, ?e)]) ?w1"
    using T[THEN conjunct1] ri by (rule mp)
  then have s1: "run_items 0 ex_pipeline [ex_item2] [] ?w = (Some [(''T2'', ?e)], ?w1)"
    by (simp only: run_items.simps(1) append_Nil idf)
  have ne: "[ex_item2] \<noteq> []" by (rule list.distinct(2))
  have "run 0 ex_pipeline [ex_item2] ?w =
      (Some (), if [(''T2'', ?e)] \<noteq> [] then logger (FailureReport [(''T2'', ?e)]) ?w1
                else ?w1)"
    using T[THEN conjunct2, THEN conjunct2, THEN conjunct1] conjI[OF s1 ne] by (rule mp)
  then have s2: "run 0 ex_pipeline [ex_item2] ?w =
      (Some (), logger (FailureReport [(''T2'', ?e)]) ?w1)"
    by (simp only: list.distinct(2) simp_thms if_True)
  have s3: "fst (main_loop 3 0 ex_pipeline ex_patterns ex_dir ?w) = None"
    using T[THEN conjunct2, THEN conjunct2, THEN conjunct2, THEN conjunct1] nd by (rule mp)
  have s4: "fst (run_items 0 ?pd [ex_item2] [] ?w) = Some []"
    using D[THEN conjunct2, THEN conjunct2, THEN conjunct2, THEN conjunct2] d by (rule mp)
  from s1 s2 s3 s4 show ?thesis by (intro conjI)
qed

text \<open>
  C4 as stated fails in its last part: after a work item has failed every attempt and
  the failure was reported, the pass of \<open>main\<close> goes on to the next scan, and the process
  has not exited after any number of passes.
\<close>

theorem run_records_failures_counterexample:
  "fst (main_pass 0 ex_pipeline ex_patterns ex_dir (w_const TimeoutExpired)) = MNext \<and>
   logs (snd (main_pass 0 ex_pipeline ex_patterns ex_dir (w_const TimeoutExpired))) =
     [RetryWait 300, RetryWait 600, ItemFailed ''T2'',
      FailureReport [(''T2'', RuntimeError (GhTimeout (IssueCreate ''[T2] second'')))]] \<and>
   fst (main_loop 3 0 ex_pipeline ex_patterns ex_dir (w_const TimeoutExpired)) = None"
  by code_simp

end
